theory Spec2Isabelle
  imports Main "HOL-Library.Multiset"
begin

section \<open>The 2048 board: a shallow embedding of 2048game.py\<close>

text \<open>
  The embedding follows the Python source function by function.
  \<^item> Python integers are unbounded, so every coordinate and tile value is an \<open>int\<close>.
  \<^item> A cell of the grid holds \<open>None\<close> or a \<open>Tile\<close> object. Every tile object is referenced
    from exactly one cell (\<open>spawn\<close> creates a fresh object, \<open>_compact\<close> moves the reference and
    clears the old cell), so a cell is modelled by the value \<open>Tile option\<close> and the in-place
    update \<open>self.value *= 2\<close> of \<open>Tile.merge\<close> is written back to the cell the tile was read from.
  \<^item> Python list indexing raises \<open>IndexError\<close> out of range and counts negative indices from the
    end; a read of an unbound global raises \<open>NameError\<close>. Both are values of type \<open>error\<close>.
  \<^item> The two \<open>while\<close> loops of the source need not terminate for every direction, so they are
    partial functions into \<open>option\<close>: \<open>None\<close> means that the loop runs forever.
  \<^item> The random source of \<open>spawn\<close> is an explicit argument: the draw of \<open>random.choice\<close> and
    the outcome of the comparison \<open>random.random() < 0.1\<close>.
\<close>

subsection \<open>Errors and results\<close>

datatype error = IndexError | NameError

type_synonym 'a res = "(error + 'a) option"

definition bind_res :: "'a res \<Rightarrow> ('a \<Rightarrow> 'b res) \<Rightarrow> 'b res" where
  "bind_res m f = (case m of None \<Rightarrow> None | Some (Inl e) \<Rightarrow> Some (Inl e) | Some (Inr x) \<Rightarrow> f x)"

definition lift :: "error + 'a \<Rightarrow> 'a res" where
  "lift r = Some r"

text \<open>\<open>for x in xs: body\<close> on a state, stopping at the first error.\<close>

fun for_each :: "'a list \<Rightarrow> ('a \<Rightarrow> 's \<Rightarrow> 's res) \<Rightarrow> 's \<Rightarrow> 's res" where
  "for_each [] body s = Some (Inr s)"
| "for_each (x # xs) body s =
     (case body x s of
        None \<Rightarrow> None
      | Some (Inl e) \<Rightarrow> Some (Inl e)
      | Some (Inr s') \<Rightarrow> for_each xs body s')"

text \<open>A \<open>for\<close> loop whose body may \<open>return\<close>: the body yields \<open>Some r\<close> to return \<open>r\<close> from
  the enclosing function and \<open>None\<close> to go on with the next element.\<close>

fun for_return :: "'a list \<Rightarrow> ('a \<Rightarrow> error + 'r option) \<Rightarrow> error + 'r option" where
  "for_return [] body = Inr None"
| "for_return (x # xs) body =
     (case body x of
        Inl e \<Rightarrow> Inl e
      | Inr (Some r) \<Rightarrow> Inr (Some r)
      | Inr None \<Rightarrow> for_return xs body)"

text \<open>Python's \<open>range(n)\<close>: empty when \<open>n \<le> 0\<close>.\<close>

definition range_py :: "int \<Rightarrow> int list" where
  "range_py n = map int [0..<nat n]"

text \<open>Python's \<open>xs[i]\<close>: the position read, or \<open>IndexError\<close>.\<close>

definition py_index :: "'a list \<Rightarrow> int \<Rightarrow> error + nat" where
  "py_index xs i =
     (let n = int (length xs); j = (if i < 0 then i + n else i)
      in if 0 \<le> j \<and> j < n then Inr (nat j) else Inl IndexError)"

subsection \<open>Tile\<close>

datatype Tile = Tile (val: int)

text \<open>\<open>Tile()\<close> has the default value 2.\<close>

definition Tile_default :: Tile where
  "Tile_default = Tile 2"

text \<open>\<open>Tile.merge\<close>: the tile \<open>self\<close> after the call, and the returned flag.\<close>

definition merge :: "Tile \<Rightarrow> Tile \<Rightarrow> Tile \<times> bool" where
  "merge self other =
     (if val self = val other then (Tile (val self * 2), True) else (self, False))"

subsection \<open>Board\<close>

type_synonym pos = "int \<times> int"

record Board =
  width :: int
  height :: int
  board :: "Tile option list list"

definition move_position :: "pos \<Rightarrow> pos \<Rightarrow> pos" where
  "move_position position direction =
     (fst position + fst direction, snd position + snd direction)"

text \<open>\<open>Board.__init__\<close>: \<open>height\<close> inner lists of \<open>width\<close> cells each.\<close>

definition Board_init :: "int \<Rightarrow> int \<Rightarrow> Board" where
  "Board_init w h =
     \<lparr>width = w, height = h, board = replicate (nat h) (replicate (nat w) None)\<rparr>"

definition is_valid :: "Board \<Rightarrow> pos \<Rightarrow> bool" where
  "is_valid b position \<longleftrightarrow>
     0 \<le> fst position \<and> fst position < width b \<and> 0 \<le> snd position \<and> snd position < height b"

definition find_starts :: "Board \<Rightarrow> pos \<Rightarrow> pos list" where
  "find_starts b direction =
     (let side = (max 0 (fst direction * (width b - 1)), max 0 (snd direction * (height b - 1)))
      in if fst direction = 0 then map (\<lambda>x. (x, snd side)) (range_py (width b))
         else if snd direction = 0 then map (\<lambda>y. (fst side, y)) (range_py (height b))
         else [])"

text \<open>\<open>self.board[position[0]][position[1]]\<close>, read and written.\<close>

definition get :: "Board \<Rightarrow> pos \<Rightarrow> error + Tile option" where
  "get b position =
     (case py_index (board b) (fst position) of
        Inl e \<Rightarrow> Inl e
      | Inr i \<Rightarrow>
          (case py_index (board b ! i) (snd position) of
             Inl e \<Rightarrow> Inl e
           | Inr j \<Rightarrow> Inr (board b ! i ! j)))"

definition set_tile :: "Board \<Rightarrow> pos \<Rightarrow> Tile option \<Rightarrow> error + Board" where
  "set_tile b position tile =
     (case py_index (board b) (fst position) of
        Inl e \<Rightarrow> Inl e
      | Inr i \<Rightarrow>
          (case py_index (board b ! i) (snd position) of
             Inl e \<Rightarrow> Inl e
           | Inr j \<Rightarrow> Inr (b\<lparr>board := (board b)[i := (board b ! i)[j := tile]]\<rparr>)))"

text \<open>The \<open>while\<close> loop of \<open>_compact\<close> (lines 74 to 79), on the loop state
  \<open>(board, curr_pos, next_pos, something_changed)\<close>.\<close>

partial_function (option) slide ::
  "Board \<Rightarrow> pos \<Rightarrow> pos \<Rightarrow> pos \<Rightarrow> bool \<Rightarrow> (error + Board \<times> bool) option" where
  "slide b direction curr_pos next_pos something_changed =
     (if \<not> is_valid b next_pos then Some (Inr (b, something_changed))
      else case get b next_pos of
        Inl e \<Rightarrow> Some (Inl e)
      | Inr (Some t) \<Rightarrow> Some (Inr (b, something_changed))
      | Inr None \<Rightarrow>
          (case get b curr_pos of
             Inl e \<Rightarrow> Some (Inl e)
           | Inr tile \<Rightarrow>
               (case set_tile b next_pos tile of
                  Inl e \<Rightarrow> Some (Inl e)
                | Inr b1 \<Rightarrow>
                    (case set_tile b1 curr_pos None of
                       Inl e \<Rightarrow> Some (Inl e)
                     | Inr b2 \<Rightarrow>
                         slide b2 direction next_pos (move_position next_pos direction) True))))"

declare slide.simps [code]

text \<open>The body of the innermost \<open>for\<close> loop of \<open>_compact\<close> (lines 69 to 79).\<close>

definition compact_cell :: "pos \<Rightarrow> int \<Rightarrow> int \<Rightarrow> Board \<times> bool \<Rightarrow> (Board \<times> bool) res" where
  "compact_cell direction x y s =
     (case get (fst s) (x, y) of
        Inl e \<Rightarrow> Some (Inl e)
      | Inr None \<Rightarrow> Some (Inr s)
      | Inr (Some t) \<Rightarrow>
          slide (fst s) direction (x, y) (move_position (x, y) direction) (snd s))"

definition compact :: "Board \<Rightarrow> pos \<Rightarrow> (Board \<times> bool) res" where
  "compact b direction =
     for_each (range_py (max (width b) (height b)))
       (\<lambda>i. for_each (range_py (width b))
          (\<lambda>x. for_each (range_py (height b)) (\<lambda>y. compact_cell direction x y)))
       (b, False)"

text \<open>The empty cells in scan order (lines 85 to 89 of \<open>spawn\<close>).\<close>

definition spawn_options :: "Board \<Rightarrow> pos list res" where
  "spawn_options b =
     for_each (range_py (width b))
       (\<lambda>x. for_each (range_py (height b))
          (\<lambda>y options.
             case get b (x, y) of
               Inl e \<Rightarrow> Some (Inl e)
             | Inr None \<Rightarrow> Some (Inr (options @ [(x, y)]))
             | Inr (Some t) \<Rightarrow> Some (Inr options)))
       []"

text \<open>\<open>spawn\<close>. The argument \<open>(k, four)\<close> is the random source: \<open>random.choice\<close> returns the
  element of index \<open>k mod len(options)\<close>, and \<open>four\<close> is the outcome of
  \<open>random.random() < 0.1\<close>. The result is the board and the returned Python value:
  \<open>Some False\<close> for \<open>return False\<close>, and \<open>None\<close> for Python's \<open>None\<close> when the body runs to
  its end without a \<open>return\<close>.\<close>

definition spawn :: "Board \<Rightarrow> nat \<times> bool \<Rightarrow> (Board \<times> bool option) res" where
  "spawn b rnd =
     bind_res (spawn_options b) (\<lambda>options.
       if length options = 0 then Some (Inr (b, Some False))
       else
         let p = options ! (fst rnd mod length options) in
         bind_res (lift (set_tile b p (Some Tile_default))) (\<lambda>b1.
           if snd rnd then bind_res (lift (set_tile b1 p (Some (Tile 4)))) (\<lambda>b2. Some (Inr (b2, None)))
           else Some (Inr (b1, None))))"

text \<open>The \<open>while\<close> loop of \<open>move\<close> (lines 114 to 131), on the loop state
  \<open>(board, curr_pos, next_pos, something_changed)\<close>.\<close>

partial_function (option) walk ::
  "Board \<Rightarrow> pos \<Rightarrow> pos \<Rightarrow> pos \<Rightarrow> bool \<Rightarrow> (error + Board \<times> bool) option" where
  "walk b inverse_dir curr_pos next_pos something_changed =
     (if \<not> is_valid b next_pos then Some (Inr (b, something_changed))
      else case get b curr_pos of
        Inl e \<Rightarrow> Some (Inl e)
      | Inr first_tile \<Rightarrow>
          (case get b next_pos of
             Inl e \<Rightarrow> Some (Inl e)
           | Inr second_tile \<Rightarrow>
               if first_tile = None \<or> second_tile = None
               then walk b inverse_dir next_pos (move_position next_pos inverse_dir) something_changed
               else if snd (merge (the first_tile) (the second_tile))
               then (case set_tile b curr_pos (Some (fst (merge (the first_tile) (the second_tile)))) of
                       Inl e \<Rightarrow> Some (Inl e)
                     | Inr b1 \<Rightarrow>
                         (case set_tile b1 next_pos None of
                            Inl e \<Rightarrow> Some (Inl e)
                          | Inr b2 \<Rightarrow>
                              walk b2 inverse_dir next_pos (move_position next_pos inverse_dir) True))
               else walk b inverse_dir next_pos (move_position next_pos inverse_dir) something_changed))"

declare walk.simps [code]

text \<open>The merge pass of \<open>move\<close> (lines 106 to 131).\<close>

definition merge_pass :: "Board \<Rightarrow> pos \<Rightarrow> bool \<Rightarrow> (Board \<times> bool) res" where
  "merge_pass b direction something_changed =
     (let inverse_dir = (- fst direction, - snd direction);
          starts = find_starts b direction
      in for_each starts
           (\<lambda>start s. walk (fst s) inverse_dir start (move_position start inverse_dir) (snd s))
           (b, something_changed))"

definition move :: "Board \<Rightarrow> pos \<Rightarrow> nat \<times> bool \<Rightarrow> Board res" where
  "move b direction rnd =
     bind_res (compact b direction) (\<lambda>(b1, changed1).
     bind_res (merge_pass b1 direction changed1) (\<lambda>(b2, changed2).
     bind_res (compact b2 direction) (\<lambda>(b3, changed3).
       if changed3 \<or> changed2 then bind_res (spawn b3 rnd) (\<lambda>(b4, r). Some (Inr b4))
       else Some (Inr b3))))"

text \<open>\<open>check_game_over\<close> reads the module-level variable \<open>board\<close>, not \<open>self\<close>: the second
  argument is the binding of that global (\<open>None\<close> when the name is unbound).\<close>

definition neighbours :: "pos list" where
  "neighbours = [(0, 1), (1, 0), (0, -1), (-1, 0)]"

definition check_game_over :: "Board \<Rightarrow> Board option \<Rightarrow> error + bool" where
  "check_game_over self global_board =
     (case global_board of
        None \<Rightarrow> Inl NameError
      | Some g \<Rightarrow>
          (case for_return (range_py (width g))
                  (\<lambda>x. for_return (range_py (height g))
                     (\<lambda>y. case get g (x, y) of
                             Inl e \<Rightarrow> Inl e
                           | Inr None \<Rightarrow> Inr (Some False)
                           | Inr (Some tile) \<Rightarrow>
                               for_return neighbours
                                 (\<lambda>direction.
                                    let next_pos = move_position (x, y) direction in
                                    if \<not> is_valid g next_pos then Inr None
                                    else case get g next_pos of
                                           Inl e \<Rightarrow> Inl e
                                         | Inr None \<Rightarrow> Inr (Some False)
                                         | Inr (Some next_tile) \<Rightarrow>
                                             if val tile = val next_tile then Inr (Some False)
                                             else Inr None))) of
             Inl e \<Rightarrow> Inl e
           | Inr (Some r) \<Rightarrow> Inr r
           | Inr None \<Rightarrow> Inr True))"

definition check_win :: "Board \<Rightarrow> bool" where
  "check_win b =
     list_ex (\<lambda>row. list_ex (\<lambda>tile. case tile of None \<Rightarrow> False | Some t \<Rightarrow> val t = 2048) row) (board b)"

subsection \<open>Well-formed boards\<close>

text \<open>A board is \<open>shaped\<close> when its grid is allocated as \<open>__init__\<close> allocates it, and
  \<open>wf\<close> when it is moreover square. On a well-formed board \<open>cell\<close> reads a valid position
  and \<open>upd\<close> writes it.\<close>

definition shaped :: "Board \<Rightarrow> bool" where
  "shaped b \<longleftrightarrow>
     length (board b) = nat (height b) \<and> list_all (\<lambda>row. length row = nat (width b)) (board b)"

definition wf :: "Board \<Rightarrow> bool" where
  "wf b \<longleftrightarrow> shaped b \<and> width b = height b"

definition cell :: "Board \<Rightarrow> pos \<Rightarrow> Tile option" where
  "cell b p = board b ! nat (fst p) ! nat (snd p)"

definition upd :: "Board \<Rightarrow> pos \<Rightarrow> Tile option \<Rightarrow> Board" where
  "upd b p t = b\<lparr>board := (board b)[nat (fst p) := (board b ! nat (fst p))[nat (snd p) := t]]\<rparr>"


subsection \<open>Observations on a board\<close>

text \<open>The position \<open>k\<close> steps from \<open>p\<close> in direction \<open>d\<close>, and the board after the tile of
  \<open>p\<close> has been carried to the empty cell \<open>q\<close>.\<close>

definition shift :: "pos \<Rightarrow> pos \<Rightarrow> nat \<Rightarrow> pos" where
  "shift p d k = (fst p + int k * fst d, snd p + int k * snd d)"

definition moved :: "Board \<Rightarrow> pos \<Rightarrow> pos \<Rightarrow> Board" where
  "moved b p q = (if q = p then b else upd (upd b q (cell b p)) p None)"

text \<open>The multiset of the tile values on the grid, one element for each occupied cell.\<close>

fun tv :: "Tile option \<Rightarrow> int multiset" where
  "tv None = {#}"
| "tv (Some t) = {#val t#}"

definition tile_values :: "Board \<Rightarrow> int multiset" where
  "tile_values b = (\<Sum>row\<leftarrow>board b. \<Sum>c\<leftarrow>row. tv c)"

definition box :: "Board \<Rightarrow> pos set" where
  "box b = {0..<width b} \<times> {0..<height b}"

definition grid_sum :: "(pos \<Rightarrow> Tile option \<Rightarrow> 'a::comm_monoid_add) \<Rightarrow> Board \<Rightarrow> 'a" where
  "grid_sum f b = (\<Sum>p\<in>box b. f p (cell b p))"

text \<open>Occupied and empty cells of the grid, the positions in the scan order of the nested
  \<open>for\<close> loops, and a board on which no tile has an empty cell next to it in direction \<open>d\<close>.\<close>

definition occupied :: "Board \<Rightarrow> pos \<Rightarrow> bool" where
  "occupied b p \<longleftrightarrow> is_valid b p \<and> cell b p \<noteq> None"

definition empty_at :: "Board \<Rightarrow> pos \<Rightarrow> bool" where
  "empty_at b p \<longleftrightarrow> is_valid b p \<and> cell b p = None"

definition positions :: "Board \<Rightarrow> pos list" where
  "positions b = List.product (range_py (width b)) (range_py (height b))"


text \<open>The four directions of the game, and the inverse of a direction.\<close>

definition unit_dir :: "pos \<Rightarrow> bool" where
  "unit_dir d \<longleftrightarrow> d = (0, -1) \<or> d = (0, 1) \<or> d = (-1, 0) \<or> d = (1, 0)"

definition opposite :: "pos \<Rightarrow> pos" where
  "opposite d = (- fst d, - snd d)"

text \<open>The cells of the line that starts at \<open>p\<close> and runs in direction \<open>d\<close>, \<open>m\<close> cells long.\<close>

definition line :: "Board \<Rightarrow> pos \<Rightarrow> pos \<Rightarrow> nat \<Rightarrow> Tile option list" where
  "line b p d m = map (\<lambda>k. cell b (shift p d k)) [0..<m]"

text \<open>The merge pass on one line as the specification words it: walk the line comparing each
  cell with the next one; if either is empty, or both are occupied with different values,
  advance; if both are occupied with equal values, the current tile doubles, the next cell
  becomes empty, and the walk advances to that emptied cell.\<close>

fun merge_line :: "Tile option list \<Rightarrow> Tile option list" where
  "merge_line (Some x # Some y # rest) =
     (if val x = val y then Some (Tile (val x * 2)) # merge_line (None # rest)
      else Some x # merge_line (Some y # rest))"
| "merge_line (a # c # rest) = a # merge_line (c # rest)"
| "merge_line xs = xs"

text \<open>The empty cells of the grid in scan order, and the three steps of \<open>move\<close> that come
  before the spawn (compact, merge pass, compact) with the value of \<open>something_changed\<close>
  that decides the spawn.\<close>

definition free_cells :: "Board \<Rightarrow> pos list" where
  "free_cells b = filter (\<lambda>p. cell b p = None) (positions b)"

definition move_steps :: "Board \<Rightarrow> pos \<Rightarrow> (Board \<times> bool) res" where
  "move_steps b direction =
     bind_res (compact b direction) (\<lambda>(b1, changed1).
     bind_res (merge_pass b1 direction changed1) (\<lambda>(b2, changed2).
     bind_res (compact b2 direction) (\<lambda>(b3, changed3). Some (Inr (b3, changed3 \<or> changed2)))))"



subsection \<open>Example boards\<close>



section \<open>Basic facts\<close>

lemma py_index_in_range: "0 \<le> i \<Longrightarrow> i < int (length xs) \<Longrightarrow> py_index xs i = Inr (nat i)"
  by (simp add: py_index_def)

lemma shaped_row: "shaped b \<Longrightarrow> i < nat (height b) \<Longrightarrow> length (board b ! i) = nat (width b)"
  by (simp add: shaped_def list_all_length)

lemma valid_index:
  assumes "wf b" "is_valid b p"
  shows "py_index (board b) (fst p) = Inr (nat (fst p))"
    and "py_index (board b ! nat (fst p)) (snd p) = Inr (nat (snd p))"
proof -
  have l: "length (board b) = nat (height b)" using assms(1) by (simp add: wf_def shaped_def)
  have i: "nat (fst p) < nat (height b)" using assms by (simp add: wf_def is_valid_def)
  have r: "length (board b ! nat (fst p)) = nat (width b)"
    using assms(1) i by (simp add: wf_def shaped_row)
  show "py_index (board b) (fst p) = Inr (nat (fst p))"
    using assms l by (intro py_index_in_range) (auto simp: wf_def is_valid_def)
  show "py_index (board b ! nat (fst p)) (snd p) = Inr (nat (snd p))"
    using assms r by (intro py_index_in_range) (auto simp: wf_def is_valid_def)
qed

lemma get_valid: "wf b \<Longrightarrow> is_valid b p \<Longrightarrow> get b p = Inr (cell b p)"
  by (simp add: get_def cell_def valid_index)

lemma set_tile_valid: "wf b \<Longrightarrow> is_valid b p \<Longrightarrow> set_tile b p t = Inr (upd b p t)"
  by (simp add: set_tile_def upd_def valid_index)

lemma upd_dims [simp]: "width (upd b p t) = width b" "height (upd b p t) = height b"
  by (simp_all add: upd_def)

lemma is_valid_upd [simp]: "is_valid (upd b p t) q = is_valid b q"
  by (simp add: is_valid_def)

lemma list_all_update:
  assumes "list_all P xs" "i < length xs \<Longrightarrow> P y"
  shows "list_all P (xs[i := y])"
  unfolding list_all_length
proof (intro allI impI)
  fix n assume n: "n < length (xs[i := y])"
  show "P (xs[i := y] ! n)"
  proof (cases "n = i")
    case True
    then show ?thesis using n assms(2) by simp
  next
    case False
    then show ?thesis using n assms(1) by (simp add: list_all_length)
  qed
qed

lemma wf_upd:
  assumes "wf b"
  shows "wf (upd b p t)"
proof -
  let ?i = "nat (fst p)"
  have a: "list_all (\<lambda>row. length row = nat (width b)) (board b)"
    using assms by (auto simp: wf_def shaped_def)
  have "list_all (\<lambda>row. length row = nat (width b))
          ((board b)[?i := (board b ! ?i)[nat (snd p) := t]])"
  proof (rule list_all_update[OF a])
    assume "?i < length (board b)"
    then show "length ((board b ! ?i)[nat (snd p) := t]) = nat (width b)"
      using a by (simp add: list_all_length)
  qed
  then show ?thesis using assms by (auto simp: wf_def shaped_def upd_def)
qed

lemma cell_upd: "wf b \<Longrightarrow> is_valid b p \<Longrightarrow> is_valid b q \<Longrightarrow>
   cell (upd b p t) q = (if q = p then t else cell b q)"
  by (cases p; cases q)
     (auto simp: wf_def shaped_def is_valid_def cell_def upd_def nth_list_update list_all_length)

lemma board_eqI:
  assumes "wf b" "wf b'" "width b = width b'"
    and "\<And>p. is_valid b p \<Longrightarrow> cell b p = cell b' p"
  shows "b = b'"
proof -
  have h: "height b = height b'" using assms(1-3) by (simp add: wf_def)
  have len: "length (board b) = length (board b')"
    using assms(1,2) h by (simp add: wf_def shaped_def)
  have "board b ! i = board b' ! i" if "i < length (board b)" for i
  proof (rule nth_equalityI)
    show "length (board b ! i) = length (board b' ! i)"
      using assms(1-3) that len h by (simp add: wf_def shaped_def list_all_length)
    fix j assume "j < length (board b ! i)"
    then have "is_valid b (int i, int j)"
      using assms(1) that by (auto simp: wf_def shaped_def is_valid_def list_all_length)
    from assms(4)[OF this] show "board b ! i ! j = board b' ! i ! j"
      by (simp add: cell_def)
  qed
  then have "board b = board b'" using len by (simp add: nth_equalityI)
  then show ?thesis using assms(3) h by simp
qed


section \<open>Positions along a direction\<close>

lemma shift_0 [simp]: "shift p d 0 = p"
  by (simp add: shift_def)

lemma shift_1 [simp]: "shift p d (Suc 0) = move_position p d"
  by (simp add: shift_def move_position_def)

lemma shift_Suc: "shift p d (Suc k) = shift (move_position p d) d k"
  by (simp add: shift_def move_position_def algebra_simps)

lemma shift_Suc': "shift p d (Suc k) = move_position (shift p d k) d"
  by (simp add: shift_def move_position_def algebra_simps)

lemma shift_add: "shift (shift p d i) d j = shift p d (i + j)"
  by (simp add: shift_def algebra_simps)

lemma shift_inj: "d \<noteq> (0, 0) \<Longrightarrow> shift p d i = shift p d j \<Longrightarrow> i = j"
  by (cases d) (auto simp: shift_def)

lemma between:
  fixes x :: int
  assumes "0 \<le> x" "x < n" "0 \<le> x + int k * c" "x + int k * c < n" "j \<le> k"
  shows "0 \<le> x + int j * c \<and> x + int j * c < n"
proof (cases "0 \<le> c")
  case True
  then have "int j * c \<le> int k * c" using assms(5) by (simp add: mult_right_mono)
  moreover have "0 \<le> int j * c" using True by simp
  ultimately show ?thesis using assms by linarith
next
  case False
  then have "int k * c \<le> int j * c" using assms(5) by (simp add: mult_right_mono_neg)
  moreover have "int j * c \<le> 0" using False by (simp add: mult_nonneg_nonpos)
  ultimately show ?thesis using assms by linarith
qed

lemma valid_convex:
  "is_valid b p \<Longrightarrow> is_valid b (shift p d k) \<Longrightarrow> j \<le> k \<Longrightarrow> is_valid b (shift p d j)"
  unfolding is_valid_def shift_def fst_conv snd_conv
  using between[of "fst p" "width b" k "fst d" j] between[of "snd p" "height b" k "snd d" j]
  by blast

lemma leaves_int:
  fixes x :: int
  assumes "0 \<le> x" "x < n" "c \<noteq> 0"
  shows "\<not> (0 \<le> x + int (nat n) * c \<and> x + int (nat n) * c < n)"
proof -
  have n: "int (nat n) = n" "0 \<le> n" using assms by simp_all
  show ?thesis
  proof (cases "0 < c")
    case True
    then have "n \<le> n * c" using mult_left_mono[of 1 c n] n by simp
    then have "n \<le> x + n * c" using assms by linarith
    then show ?thesis unfolding n(1) by linarith
  next
    case False
    then have "c \<le> -1" using assms by simp
    then have "n * c \<le> - n" using mult_left_mono[of c "-1" n] n by simp
    then have "x + n * c < 0" using assms by linarith
    then show ?thesis unfolding n(1) by linarith
  qed
qed

lemma shift_leaves:
  assumes "is_valid b p" "d \<noteq> (0, 0)"
  shows "\<not> is_valid b (shift p d (nat (max (width b) (height b))))"
proof -
  consider "fst d \<noteq> 0" | "snd d \<noteq> 0" using assms(2) by (cases d) auto
  then show ?thesis
  proof cases
    case 1
    have "\<not> is_valid b (shift p d (nat (width b)))"
      using leaves_int[of "fst p" "width b" "fst d"] assms(1) 1
      unfolding is_valid_def shift_def fst_conv snd_conv by blast
    moreover have "nat (width b) \<le> nat (max (width b) (height b))" by (simp add: nat_mono)
    ultimately show ?thesis
      using valid_convex[OF assms(1), of d "nat (max (width b) (height b))" "nat (width b)"]
      by blast
  next
    case 2
    have "\<not> is_valid b (shift p d (nat (height b)))"
      using leaves_int[of "snd p" "height b" "snd d"] assms(1) 2
      unfolding is_valid_def shift_def fst_conv snd_conv by blast
    moreover have "nat (height b) \<le> nat (max (width b) (height b))" by (simp add: nat_mono)
    ultimately show ?thesis
      using valid_convex[OF assms(1), of d "nat (max (width b) (height b))" "nat (height b)"]
      by blast
  qed
qed

lemma moved_dims [simp]: "width (moved b p q) = width b" "height (moved b p q) = height b"
  by (simp_all add: moved_def)

lemma is_valid_moved [simp]: "is_valid (moved b p q) r = is_valid b r"
  by (simp add: is_valid_def)

lemma wf_moved: "wf b \<Longrightarrow> wf (moved b p q)"
  by (simp add: moved_def wf_upd)

lemma cell_moved:
  "wf b \<Longrightarrow> is_valid b p \<Longrightarrow> is_valid b q \<Longrightarrow> is_valid b r \<Longrightarrow>
   cell (moved b p q) r =
     (if q = p then cell b r else if r = p then None else if r = q then cell b p else cell b r)"
  by (simp add: moved_def cell_upd wf_upd)

lemma for_each_rule:
  assumes "I xs s"
    and "\<And>x rest s. I (x # rest) s \<Longrightarrow> \<exists>s'. body x s = Some (Inr s') \<and> I rest s'"
  shows "\<exists>s'. for_each xs body s = Some (Inr s') \<and> I [] s'"
  using assms(1)
proof (induction xs arbitrary: s)
  case Nil
  then show ?case by simp
next
  case (Cons x xs)
  from assms(2)[OF Cons.prems] obtain s1 where s1: "body x s = Some (Inr s1)" "I xs s1"
    by blast
  from Cons.IH[OF s1(2)] show ?case using s1(1) by simp
qed

lemma for_each_inv:
  assumes "P s"
    and "\<And>x s. x \<in> set xs \<Longrightarrow> P s \<Longrightarrow> \<exists>s'. body x s = Some (Inr s') \<and> P s'"
  shows "\<exists>s'. for_each xs body s = Some (Inr s') \<and> P s'"
proof -
  have "\<exists>s'. for_each xs body s = Some (Inr s') \<and> (set [] \<subseteq> set xs \<and> P s')"
  proof (rule for_each_rule[where I = "\<lambda>r s. set r \<subseteq> set xs \<and> P s"])
    show "set xs \<subseteq> set xs \<and> P s" using assms(1) by simp
  next
    fix x rest s assume "set (x # rest) \<subseteq> set xs \<and> P s"
    then show "\<exists>s'. body x s = Some (Inr s') \<and> set rest \<subseteq> set xs \<and> P s'"
      using assms(2)[of x s] by auto
  qed
  then show ?thesis by simp
qed

lemma moved_step:
  assumes "wf b" "d \<noteq> (0, 0)" "is_valid b p" "is_valid b (move_position p d)"
    "cell b (move_position p d) = None" "is_valid b (shift (move_position p d) d j)"
  shows "moved (moved b p (move_position p d)) (move_position p d) (shift (move_position p d) d j)
         = moved b p (shift (move_position p d) d j)"
proof -
  let ?n = "move_position p d" and ?L = "shift (move_position p d) d j"
  have L: "?L = shift p d (Suc j)" by (simp add: shift_Suc)
  have n: "?n = shift p d (Suc 0)" by simp
  have np: "?n \<noteq> p" using shift_inj[OF assms(2), of p "Suc 0" 0] by auto
  have Lp: "?L \<noteq> p" using shift_inj[OF assms(2), of p "Suc j" 0] L by auto
  have wf1: "wf (moved b p ?n)" using assms(1) by (rule wf_moved)
  show ?thesis
  proof (rule board_eqI)
    show "wf (moved (moved b p ?n) ?n ?L)" using wf1 by (rule wf_moved)
    show "wf (moved b p ?L)" using assms(1) by (rule wf_moved)
    show "width (moved (moved b p ?n) ?n ?L) = width (moved b p ?L)" by simp
    fix r assume "is_valid (moved (moved b p ?n) ?n ?L) r"
    then have r: "is_valid b r" by simp
    show "cell (moved (moved b p ?n) ?n ?L) r = cell (moved b p ?L) r"
      using assms r np Lp wf1
      by (simp add: cell_moved) 
  qed
qed

lemma slide_spec:
  assumes "wf b" "d \<noteq> (0, 0)" "is_valid b p" "\<not> is_valid b (shift p d n)"
  shows "\<exists>j. (\<forall>i. 1 \<le> i \<and> i \<le> j \<longrightarrow> is_valid b (shift p d i) \<and> cell b (shift p d i) = None)
            \<and> (is_valid b (shift p d (Suc j)) \<longrightarrow> cell b (shift p d (Suc j)) \<noteq> None)
            \<and> slide b d p (move_position p d) c = Some (Inr (moved b p (shift p d j), c \<or> 0 < j))"
  using assms
proof (induction n arbitrary: b p c)
  case 0
  then show ?case by simp
next
  case (Suc n)
  let ?q = "move_position p d"
  show ?case
  proof (cases "is_valid b ?q \<and> cell b ?q = None")
    case False
    then have "slide b d p ?q c = Some (Inr (b, c))"
      using Suc.prems(1) by (subst slide.simps) (auto simp: get_valid)
    then show ?thesis using False by (intro exI[of _ 0]) (simp add: moved_def)
  next
    case True
    let ?b2 = "moved b p ?q"
    have qp: "?q \<noteq> p" using shift_inj[OF Suc.prems(2), of p "Suc 0" 0] by auto
    have wf2: "wf ?b2" using Suc.prems(1) by (rule wf_moved)
    have b2: "?b2 = upd (upd b ?q (cell b p)) p None" using qp by (simp add: moved_def)
    have step: "slide b d p ?q c = slide ?b2 d ?q (move_position ?q d) True"
      using True Suc.prems(1,3)
      by (subst slide.simps) (simp add: get_valid set_tile_valid wf_upd b2)
    have "\<not> is_valid ?b2 (shift ?q d n)" using Suc.prems(4) by (simp add: shift_Suc)
    from Suc.IH[OF wf2 Suc.prems(2) _ this, of True] True
    obtain j where j:
      "\<forall>i. 1 \<le> i \<and> i \<le> j \<longrightarrow> is_valid b (shift ?q d i) \<and> cell ?b2 (shift ?q d i) = None"
      "is_valid b (shift ?q d (Suc j)) \<longrightarrow> cell ?b2 (shift ?q d (Suc j)) \<noteq> None"
      "slide ?b2 d ?q (move_position ?q d) True = Some (Inr (moved ?b2 ?q (shift ?q d j), True))"
      by auto
    have other: "cell ?b2 (shift ?q d i) = cell b (shift ?q d i)"
      if "1 \<le> i" "is_valid b (shift ?q d i)" for i
    proof -
      have "shift ?q d i = shift p d (Suc i)" by (simp add: shift_Suc)
      then have "shift ?q d i \<noteq> p" "shift ?q d i \<noteq> ?q"
        using shift_inj[OF Suc.prems(2), of p "Suc i" 0]
              shift_inj[OF Suc.prems(2), of p "Suc i" "Suc 0"] that(1) by auto
      then show ?thesis using Suc.prems(1,3) True that(2) by (simp add: cell_moved)
    qed
    have Lv: "is_valid b (shift ?q d j)"
    proof (cases j)
      case 0
      then show ?thesis using True by simp
    next
      case (Suc k)
      then show ?thesis using j(1) by auto
    qed
    have res: "moved ?b2 ?q (shift ?q d j) = moved b p (shift p d (Suc j))"
      using moved_step[OF Suc.prems(1,2,3) _ _ Lv] True by (simp add: shift_Suc)
    have "\<forall>i. 1 \<le> i \<and> i \<le> Suc j \<longrightarrow> is_valid b (shift p d i) \<and> cell b (shift p d i) = None"
    proof (intro allI impI)
      fix i assume i: "1 \<le> i \<and> i \<le> Suc j"
      show "is_valid b (shift p d i) \<and> cell b (shift p d i) = None"
      proof (cases "i = 1")
        case True
        then show ?thesis using \<open>is_valid b ?q \<and> cell b ?q = None\<close> by simp
      next
        case False
        then obtain k where k: "i = Suc k" "1 \<le> k" "k \<le> j" using i by (cases i) auto
        then show ?thesis using j(1) other[of k] by (simp add: shift_Suc)
      qed
    qed
    moreover have "is_valid b (shift p d (Suc (Suc j))) \<longrightarrow> cell b (shift p d (Suc (Suc j))) \<noteq> None"
      using j(2) other[of "Suc j"] by (simp add: shift_Suc)
    moreover have "slide b d p ?q c = Some (Inr (moved b p (shift p d (Suc j)), c \<or> 0 < Suc j))"
      using step j(3) res by simp
    ultimately show ?thesis by (intro exI[of _ "Suc j"]) blast
  qed
qed

lemma is_valid_box: "is_valid b p \<longleftrightarrow> p \<in> box b"
  by (cases p) (auto simp: is_valid_def box_def)

lemma finite_box [simp]: "finite (box b)"
  by (simp add: box_def)

lemma box_upd [simp]: "box (upd b p t) = box b"
  by (simp add: box_def)

lemma box_moved [simp]: "box (moved b p q) = box b"
  by (simp add: box_def)

lemma sum_list_nth_map: "sum_list (map f xs) = (\<Sum>i = 0..<length xs. f (xs ! i))"
  by (simp add: sum_list_sum_nth)

lemma tile_values_grid_sum:
  assumes "wf b"
  shows "tile_values b = grid_sum (\<lambda>p. tv) b"
proof -
  let ?n = "nat (width b)"
  have len: "length (board b) = ?n" and row: "\<And>i. i < ?n \<Longrightarrow> length (board b ! i) = ?n"
    using assms by (auto simp: wf_def shaped_def list_all_length)
  have "tile_values b = (\<Sum>i = 0..<?n. \<Sum>j = 0..<?n. tv (board b ! i ! j))"
    unfolding tile_values_def sum_list_nth_map len
    by (rule sum.cong) (simp_all add: row)
  also have "\<dots> = (\<Sum>(i, j)\<in>{0..<?n} \<times> {0..<?n}. tv (board b ! i ! j))"
    by (simp add: sum.cartesian_product)
  also have "\<dots> = (\<Sum>p\<in>box b. tv (cell b p))"
    by (rule sum.reindex_bij_witness[of _ "\<lambda>p. (nat (fst p), nat (snd p))" "\<lambda>(i, j). (int i, int j)"])
       (use assms in \<open>auto simp: box_def cell_def wf_def\<close>)
  finally show ?thesis by (simp add: grid_sum_def)
qed

lemma grid_sum_upd:
  assumes "wf b" "is_valid b p"
  shows "grid_sum f (upd b p t) + f p (cell b p) = grid_sum f b + f p t"
proof -
  have p: "p \<in> box b" using assms(2) by (simp add: is_valid_box)
  have rest: "(\<Sum>q\<in>box b - {p}. f q (cell (upd b p t) q)) = (\<Sum>q\<in>box b - {p}. f q (cell b q))"
    by (rule sum.cong) (use assms in \<open>auto simp: cell_upd is_valid_box\<close>)
  have "grid_sum f (upd b p t) = f p t + (\<Sum>q\<in>box b - {p}. f q (cell b q))"
    unfolding grid_sum_def box_upd
    by (subst sum.remove[OF finite_box p]) (use assms rest in \<open>simp add: cell_upd\<close>)
  moreover have "grid_sum f b = f p (cell b p) + (\<Sum>q\<in>box b - {p}. f q (cell b q))"
    unfolding grid_sum_def by (rule sum.remove[OF finite_box p])
  ultimately show ?thesis by (simp add: ac_simps)
qed

lemma grid_sum_moved:
  assumes "wf b" "is_valid b p" "is_valid b q" "q \<noteq> p"
  shows "grid_sum f (moved b p q) + f p (cell b p) + f q (cell b q)
         = grid_sum f b + f p None + f q (cell b p)"
proof -
  let ?b1 = "upd b q (cell b p)"
  have 1: "grid_sum f ?b1 + f q (cell b q) = grid_sum f b + f q (cell b p)"
    using assms by (intro grid_sum_upd)
  have "grid_sum f (upd ?b1 p None) + f p (cell ?b1 p) = grid_sum f ?b1 + f p None"
    using assms by (intro grid_sum_upd) (simp_all add: wf_upd)
  moreover have "cell ?b1 p = cell b p" using assms by (simp add: cell_upd)
  ultimately have "grid_sum f (moved b p q) + f p (cell b p) = grid_sum f ?b1 + f p None"
    using assms(4) by (simp add: moved_def)
  then have "grid_sum f (moved b p q) + f p (cell b p) + f q (cell b q)
             = grid_sum f ?b1 + f q (cell b q) + f p None" by (simp add: ac_simps)
  then show ?thesis using 1 by (simp add: ac_simps)
qed

lemma tile_values_moved:
  assumes "wf b" "is_valid b p" "is_valid b q" "q = p \<or> cell b q = None"
  shows "tile_values (moved b p q) = tile_values b"
proof (cases "q = p")
  case True
  then show ?thesis by (simp add: moved_def)
next
  case False
  then have "cell b q = None" using assms(4) by simp
  with grid_sum_moved[OF assms(1-3) False, of "\<lambda>p. tv"] show ?thesis
    using assms(1) by (simp add: tile_values_grid_sum wf_moved)
qed

lemma set_range_py: "set (range_py n) = {0..<n}"
proof -
  have "x \<in> int ` {0..<nat n} \<longleftrightarrow> 0 \<le> x \<and> x < n" for x
    by (auto simp: image_iff intro: bexI[of _ "nat x"])
  then show ?thesis by (auto simp: range_py_def)
qed

lemma set_positions: "set (positions b) = {p. is_valid b p}"
  by (auto simp: positions_def set_range_py is_valid_def)


lemma compact_cell_empty:
  "wf b \<Longrightarrow> is_valid b (x, y) \<Longrightarrow> cell b (x, y) = None \<Longrightarrow>
   compact_cell d x y (b, c) = Some (Inr (b, c))"
  by (simp add: compact_cell_def get_valid)

lemma compact_cell_occupied:
  assumes "wf b" "d \<noteq> (0, 0)" "is_valid b (x, y)" "cell b (x, y) \<noteq> None"
  shows "\<exists>j. (\<forall>i. 1 \<le> i \<and> i \<le> j \<longrightarrow>
                is_valid b (shift (x, y) d i) \<and> cell b (shift (x, y) d i) = None)
            \<and> (is_valid b (shift (x, y) d (Suc j)) \<longrightarrow> cell b (shift (x, y) d (Suc j)) \<noteq> None)
            \<and> compact_cell d x y (b, c) = Some (Inr (moved b (x, y) (shift (x, y) d j), c \<or> 0 < j))"
proof -
  have "compact_cell d x y (b, c) = slide b d (x, y) (move_position (x, y) d) c"
    using assms by (auto simp: compact_cell_def get_valid)
  then show ?thesis
    using slide_spec[OF assms(1,2,3) shift_leaves[OF assms(3,2)], of c] by simp
qed

lemma compact_rule:
  assumes "wf b" "d \<noteq> (0, 0)" "I b False"
    and step: "\<And>b' c p j. wf b' \<Longrightarrow> width b' = width b \<Longrightarrow> I b' c \<Longrightarrow> occupied b' p \<Longrightarrow>
        (\<forall>i. 1 \<le> i \<and> i \<le> j \<longrightarrow> empty_at b' (shift p d i)) \<Longrightarrow>
        \<not> empty_at b' (shift p d (Suc j)) \<Longrightarrow>
        I (moved b' p (shift p d j)) (c \<or> 0 < j)"
  shows "\<exists>b' c'. compact b d = Some (Inr (b', c')) \<and> wf b' \<and> width b' = width b \<and> I b' c'"
proof -
  define P where "P s \<longleftrightarrow> wf (fst s) \<and> width (fst s) = width b \<and> I (fst s) (snd s)"
    for s :: "Board \<times> bool"
  have hw: "height b = width b" using assms(1) by (simp add: wf_def)
  have cell_step: "\<exists>s'. compact_cell d x y s = Some (Inr s') \<and> P s'"
    if "x \<in> set (range_py (width b))" "y \<in> set (range_py (height b))" "P s" for x y s
  proof -
    obtain b' c where s: "s = (b', c)" by (cases s)
    have wf': "wf b'" and w': "width b' = width b" and I': "I b' c"
      using that(3) by (simp_all add: P_def s)
    have h': "height b' = width b" using wf' w' by (simp add: wf_def)
    have v: "is_valid b' (x, y)"
      using that(1,2) w' h' hw by (simp add: set_range_py is_valid_def)
    show ?thesis
    proof (cases "cell b' (x, y)")
      case None
      then show ?thesis using compact_cell_empty[OF wf' v] that(3) by (simp add: s)
    next
      case (Some t)
      then have ne: "cell b' (x, y) \<noteq> None" by simp
      from compact_cell_occupied[OF wf' assms(2) v ne, of c] obtain j where j:
        "\<forall>i. 1 \<le> i \<and> i \<le> j \<longrightarrow>
             is_valid b' (shift (x, y) d i) \<and> cell b' (shift (x, y) d i) = None"
        "is_valid b' (shift (x, y) d (Suc j)) \<longrightarrow> cell b' (shift (x, y) d (Suc j)) \<noteq> None"
        "compact_cell d x y (b', c) = Some (Inr (moved b' (x, y) (shift (x, y) d j), c \<or> 0 < j))"
        by blast
      have "I (moved b' (x, y) (shift (x, y) d j)) (c \<or> 0 < j)"
        using step[OF wf' w' I', of "(x, y)" j] v ne j(1,2)
        by (simp add: occupied_def empty_at_def)
      then show ?thesis using j(3) wf' w' by (simp add: s P_def wf_moved)
    qed
  qed
  have "\<exists>s'. compact b d = Some (Inr s') \<and> P s'"
    unfolding compact_def
  proof (rule for_each_inv)
    show "P (b, False)" using assms(1,3) by (simp add: P_def)
  next
    fix i s assume "P s"
    then show "\<exists>s'. for_each (range_py (width b))
        (\<lambda>x. for_each (range_py (height b)) (compact_cell d x)) s = Some (Inr s') \<and> P s'"
    proof (rule for_each_inv)
      fix x s assume "x \<in> set (range_py (width b))" "P s"
      then show "\<exists>s'. for_each (range_py (height b)) (compact_cell d x) s = Some (Inr s') \<and> P s'"
        using cell_step by (intro for_each_inv[where P = P]) blast+
    qed
  qed
  then show ?thesis by (auto simp: P_def)
qed

lemma compact_total:
  assumes "wf b" "d \<noteq> (0, 0)"
  shows "\<exists>b' c'. compact b d = Some (Inr (b', c')) \<and> wf b' \<and> width b' = width b
                  \<and> tile_values b' = tile_values b"
proof (rule compact_rule[OF assms, where I = "\<lambda>b' c. tile_values b' = tile_values b"])
  show "tile_values b = tile_values b" by simp
next
  fix b' c p j
  assume a: "wf b'" "tile_values b' = tile_values b" "occupied b' p"
    "\<forall>i. 1 \<le> i \<and> i \<le> j \<longrightarrow> empty_at b' (shift p d i)"
  have "is_valid b' (shift p d j) \<and> (shift p d j = p \<or> cell b' (shift p d j) = None)"
  proof (cases j)
    case 0
    then show ?thesis using a(3) by (simp add: occupied_def)
  next
    case (Suc k)
    then show ?thesis using a(4) by (auto simp: empty_at_def)
  qed
  then show "tile_values (moved b' p (shift p d j)) = tile_values b"
    using a by (simp add: tile_values_moved occupied_def)
qed


lemma merge_line_skip:
  "a = None \<or> c = None \<Longrightarrow> merge_line (a # c # rest) = a # merge_line (c # rest)"
  by (cases a; cases c) auto

lemma merge_line_None: "merge_line (None # rest) = None # merge_line rest"
  by (cases rest) auto

lemma length_merge_line [simp]: "length (merge_line xs) = length xs"
  by (induction xs rule: merge_line.induct) auto

lemma length_line [simp]: "length (line b p d m) = m"
  by (simp add: line_def)

lemma line_Suc: "line b p d (Suc m) = cell b p # line b (move_position p d) d m"
proof -
  have "[0..<Suc m] = 0 # map Suc [0..<m]"
    by (simp only: map_Suc_upt upt_conv_Cons[OF zero_less_Suc])
  then show ?thesis by (simp add: line_def shift_Suc comp_def del: upt_Suc)
qed

lemma line_cong:
  "(\<And>k. k < m \<Longrightarrow> cell b' (shift p d k) = cell b (shift p d k)) \<Longrightarrow> line b' p d m = line b p d m"
  by (simp add: line_def)

lemma walk_spec:
  assumes "wf b" "d \<noteq> (0, 0)" "\<forall>k. is_valid b (shift p d k) \<longleftrightarrow> k < m" "0 < m"
  shows "\<exists>b' c'. walk b d p (move_position p d) c = Some (Inr (b', c'))
            \<and> wf b' \<and> width b' = width b
            \<and> line b' p d m = merge_line (line b p d m)
            \<and> (\<forall>q. is_valid b q \<and> (\<forall>k. q \<noteq> shift p d k) \<longrightarrow> cell b' q = cell b q)
            \<and> c' = (c \<or> line b' p d m \<noteq> line b p d m)"
  using assms
proof (induction m arbitrary: b p c)
  case 0
  then show ?case by simp
next
  case (Suc m)
  let ?q = "move_position p d"
  have pv: "is_valid b p" using Suc.prems(3)[rule_format, of 0] by simp
  show ?case
  proof (cases "m = 0")
    case True
    then have "\<not> is_valid b ?q" using Suc.prems(3)[rule_format, of 1] by simp
    then have "walk b d p ?q c = Some (Inr (b, c))" by (subst walk.simps) simp
    moreover have "merge_line (line b p d (Suc m)) = line b p d (Suc m)"
      using True by (simp add: line_def)
    ultimately show ?thesis using Suc.prems(1) by simp
  next
    case False
    then have m: "0 < m" by simp
    have qv: "is_valid b ?q" using Suc.prems(3)[rule_format, of 1] m by simp
    have ray: "\<forall>k. is_valid b (shift ?q d k) \<longleftrightarrow> k < m"
      using Suc.prems(3) by (simp add: shift_Suc[symmetric])
    have pq: "p \<noteq> shift ?q d k" for k
      using shift_inj[OF Suc.prems(2), of p 0 "Suc k"] by (auto simp: shift_Suc)
    obtain T where T: "line b ?q d m = cell b ?q # T"
      using m by (cases m) (auto simp: line_Suc)
    have L: "line b p d (Suc m) = cell b p # cell b ?q # T" by (simp add: line_Suc T)
    show ?thesis
    proof (cases "\<exists>x y. cell b p = Some x \<and> cell b ?q = Some y \<and> val x = val y")
      case False
      then have step: "walk b d p ?q c = walk b d ?q (move_position ?q d) c"
        using Suc.prems(1) pv qv
        by (subst walk.simps) (auto simp: get_valid merge_def)
      from Suc.IH[OF Suc.prems(1,2) ray m, of c] obtain b' c' where r:
        "walk b d ?q (move_position ?q d) c = Some (Inr (b', c'))" "wf b'" "width b' = width b"
        "line b' ?q d m = merge_line (line b ?q d m)"
        "\<forall>q. is_valid b q \<and> (\<forall>k. q \<noteq> shift ?q d k) \<longrightarrow> cell b' q = cell b q"
        "c' = (c \<or> line b' ?q d m \<noteq> line b ?q d m)"
        by blast
      have cp: "cell b' p = cell b p" using r(5)[rule_format, of p] pv pq by blast
      have ml: "merge_line (line b p d (Suc m)) = cell b p # merge_line (line b ?q d m)"
      proof (cases "cell b p = None \<or> cell b ?q = None")
        case True
        then show ?thesis unfolding L T by (rule merge_line_skip)
      next
        case False
        then obtain x y where "cell b p = Some x" "cell b ?q = Some y" by auto
        moreover from this have "val x \<noteq> val y"
          using \<open>\<not> (\<exists>x y. cell b p = Some x \<and> cell b ?q = Some y \<and> val x = val y)\<close> by simp
        ultimately show ?thesis unfolding L T by simp
      qed
      have "line b' p d (Suc m) = merge_line (line b p d (Suc m))"
        using ml r(4) cp by (simp add: line_Suc)
      moreover have "\<forall>q. is_valid b q \<and> (\<forall>k. q \<noteq> shift p d k) \<longrightarrow> cell b' q = cell b q"
      proof (intro allI impI)
        fix q assume q: "is_valid b q \<and> (\<forall>k. q \<noteq> shift p d k)"
        then have "\<forall>k. q \<noteq> shift ?q d k" by (simp add: shift_Suc[symmetric])
        then show "cell b' q = cell b q" using r(5)[rule_format, of q] q by blast
      qed
      moreover have "c' = (c \<or> line b' p d (Suc m) \<noteq> line b p d (Suc m))"
        using r(6) cp by (simp add: line_Suc)
      ultimately show ?thesis using step r(1,2,3) by simp
    next
      case True
      then obtain x y where xy: "cell b p = Some x" "cell b ?q = Some y" "val x = val y" by blast
      let ?b2 = "upd (upd b p (Some (Tile (val x * 2)))) ?q None"
      have wf2: "wf ?b2" using Suc.prems(1) by (simp add: wf_upd)
      have step: "walk b d p ?q c = walk ?b2 d ?q (move_position ?q d) True"
        using Suc.prems(1) pv qv xy
        by (subst walk.simps) (simp add: get_valid set_tile_valid wf_upd merge_def)
      have ray2: "\<forall>k. is_valid ?b2 (shift ?q d k) \<longleftrightarrow> k < m" using ray by simp
      from Suc.IH[OF wf2 Suc.prems(2) ray2 m, of True] obtain b' c' where r:
        "walk ?b2 d ?q (move_position ?q d) True = Some (Inr (b', c'))" "wf b'"
        "width b' = width b"
        "line b' ?q d m = merge_line (line ?b2 ?q d m)"
        "\<forall>q. is_valid b q \<and> (\<forall>k. q \<noteq> shift ?q d k) \<longrightarrow> cell b' q = cell ?b2 q"
        "c' = True"
        by auto
      have c2: "cell ?b2 r = (if r = ?q then None else if r = p then Some (Tile (val x * 2)) else cell b r)"
        if "is_valid b r" for r
        using Suc.prems(1) pv qv that by (simp add: cell_upd wf_upd)
      have "cell b' p = cell ?b2 p" using r(5)[rule_format, of p] pv pq by blast
      then have cp: "cell b' p = Some (Tile (val x * 2))"
        using c2[OF pv] pq[of 0] by simp
      have l2: "line ?b2 ?q d m = None # T"
      proof (rule nth_equalityI)
        have "length (cell b ?q # T) = m" unfolding T[symmetric] by simp
        then show "length (line ?b2 ?q d m) = length (None # T)" by simp
        fix k assume "k < length (line ?b2 ?q d m)"
        then have k: "k < m" by simp
        then have v: "is_valid b (shift ?q d k)" using ray by simp
        have "shift ?q d k \<noteq> p" using pq[of k] by simp
        moreover have "shift ?q d k = ?q \<longleftrightarrow> k = 0"
          using shift_inj[OF Suc.prems(2), of ?q k 0] by auto
        ultimately have "cell ?b2 (shift ?q d k) = (if k = 0 then None else cell b (shift ?q d k))"
          using c2[OF v] by simp
        moreover have "(cell b ?q # T) ! k = cell b (shift ?q d k)"
          using k unfolding T[symmetric] by (simp add: line_def)
        ultimately show "line ?b2 ?q d m ! k = (None # T) ! k"
          using k by (cases k) (simp_all add: line_def)
      qed
      have ml: "merge_line (line b p d (Suc m)) = Some (Tile (val x * 2)) # merge_line (None # T)"
        unfolding L using xy by simp
      have eq: "line b' p d (Suc m) = merge_line (line b p d (Suc m))"
        using ml r(4) cp l2 by (simp add: line_Suc)
      have "merge_line (line b p d (Suc m)) ! 1 = None"
        unfolding ml by (simp add: merge_line_None)
      moreover have "line b p d (Suc m) ! 1 = Some y" unfolding L using xy by simp
      ultimately have ne: "line b' p d (Suc m) \<noteq> line b p d (Suc m)" using eq by auto
      have "\<forall>q. is_valid b q \<and> (\<forall>k. q \<noteq> shift p d k) \<longrightarrow> cell b' q = cell b q"
      proof (intro allI impI)
        fix q assume q: "is_valid b q \<and> (\<forall>k. q \<noteq> shift p d k)"
        then have a: "\<forall>k. q \<noteq> shift ?q d k" by (simp add: shift_Suc[symmetric])
        have "q \<noteq> p" "q \<noteq> ?q" using q[THEN conjunct2, rule_format, of 0]
            q[THEN conjunct2, rule_format, of 1] by simp_all
        moreover have "cell b' q = cell ?b2 q" using r(5)[rule_format, of q] q a by blast
        ultimately show "cell b' q = cell b q" using q c2[of q] by simp
      qed
      then show ?thesis using step r(1,2,3,6) eq ne by simp
    qed
  qed
qed

lemma unit_dir_nonzero: "unit_dir d \<Longrightarrow> d \<noteq> (0, 0)"
  by (auto simp: unit_dir_def)

lemma opposite_nonzero: "unit_dir d \<Longrightarrow> opposite d \<noteq> (0, 0)"
  by (auto simp: unit_dir_def opposite_def)

lemma starts_ray:
  assumes "wf b" "unit_dir d" "s \<in> set (find_starts b d)"
  shows "is_valid b (shift s (opposite d) k) \<longleftrightarrow> k < nat (width b)"
  using assms
  by (auto simp: wf_def unit_dir_def find_starts_def set_range_py is_valid_def shift_def
      opposite_def)

lemma starts_distinct:
  assumes "unit_dir d"
  shows "distinct (find_starts b d)"
  using assms
  by (auto simp: unit_dir_def find_starts_def range_py_def distinct_map inj_on_def)

lemma starts_disjoint:
  assumes "wf b" "unit_dir d" "s \<in> set (find_starts b d)" "s' \<in> set (find_starts b d)"
    "shift s (opposite d) k = shift s' (opposite d) k'"
    "k < nat (width b)" "k' < nat (width b)"
  shows "s = s'"
  using assms
  by (auto simp: wf_def unit_dir_def find_starts_def set_range_py shift_def opposite_def)

lemma starts_cover:
  assumes "wf b" "unit_dir d" "is_valid b q"
  shows "\<exists>s\<in>set (find_starts b d). \<exists>k<nat (width b). q = shift s (opposite d) k"
proof -
  obtain x y where q: "q = (x, y)" by (cases q)
  have r: "0 \<le> x" "x < width b" "0 \<le> y" "y < width b"
    using assms(1,3) by (simp_all add: q is_valid_def wf_def)
  consider "d = (0, -1)" | "d = (0, 1)" | "d = (-1, 0)" | "d = (1, 0)"
    using assms(2) by (auto simp: unit_dir_def)
  then show ?thesis
  proof cases
    case 1
    show ?thesis
      by (rule bexI[of _ "(x, 0)"], rule exI[of _ "nat y"])
         (use 1 r assms(1) in \<open>auto simp: q find_starts_def set_range_py shift_def opposite_def wf_def\<close>)
  next
    case 2
    show ?thesis
      by (rule bexI[of _ "(x, width b - 1)"], rule exI[of _ "nat (width b - 1 - y)"])
         (use 2 r assms(1) in \<open>auto simp: q find_starts_def set_range_py shift_def opposite_def wf_def\<close>)
  next
    case 3
    show ?thesis
      by (rule bexI[of _ "(0, y)"], rule exI[of _ "nat x"])
         (use 3 r assms(1) in \<open>auto simp: q find_starts_def set_range_py shift_def opposite_def wf_def\<close>)
  next
    case 4
    show ?thesis
      by (rule bexI[of _ "(width b - 1, y)"], rule exI[of _ "nat (width b - 1 - x)"])
         (use 4 r assms(1) in \<open>auto simp: q find_starts_def set_range_py shift_def opposite_def wf_def\<close>)
  qed
qed

lemma starts_valid:
  assumes "wf b" "unit_dir d" "s \<in> set (find_starts b d)"
  shows "is_valid b s" "0 < nat (width b)"
proof -
  show "is_valid b s"
    using assms
    by (auto simp: wf_def unit_dir_def find_starts_def set_range_py is_valid_def)
  then show "0 < nat (width b)" by (simp add: is_valid_def)
qed

lemma is_valid_same_dims:
  "wf b \<Longrightarrow> wf b' \<Longrightarrow> width b' = width b \<Longrightarrow> is_valid b' p = is_valid b p"
  by (simp add: is_valid_def wf_def)

lemma merge_pass_spec:
  assumes "wf b" "unit_dir d"
  shows "\<exists>b' c'. merge_pass b d c = Some (Inr (b', c')) \<and> wf b' \<and> width b' = width b
           \<and> (\<forall>s\<in>set (find_starts b d).
                 line b' s (opposite d) (nat (width b))
                 = merge_line (line b s (opposite d) (nat (width b))))
           \<and> c' = (c \<or> (\<exists>s\<in>set (find_starts b d).
                 line b' s (opposite d) (nat (width b)) \<noteq> line b s (opposite d) (nat (width b))))"
proof -
  let ?S = "find_starts b d" and ?n = "nat (width b)" and ?inv = "opposite d"
  define L where "L bc s = line bc s ?inv ?n" for bc s
  define I where "I rest st \<longleftrightarrow>
      wf (fst st) \<and> width (fst st) = width b \<and> (\<exists>pre. ?S = pre @ rest)
      \<and> (\<forall>s\<in>set ?S. L (fst st) s = (if s \<in> set rest then L b s else merge_line (L b s)))
      \<and> snd st = (c \<or> (\<exists>s\<in>set ?S. L (fst st) s \<noteq> L b s))"
    for rest and st :: "Board \<times> bool"
  have inv_nz: "?inv \<noteq> (0, 0)" using assms(2) by (rule opposite_nonzero)
  have "\<exists>st. for_each ?S
          (\<lambda>start s. walk (fst s) ?inv start (move_position start ?inv) (snd s)) (b, c)
          = Some (Inr st) \<and> I [] st"
  proof (rule for_each_rule[where I = I])
    show "I ?S (b, c)" using assms(1) by (auto simp: I_def)
  next
    fix x rest st assume inv: "I (x # rest) st"
    obtain bc cc where st: "st = (bc, cc)" by (cases st)
    have wfc: "wf bc" and wc: "width bc = width b" using inv by (simp_all add: I_def st)
    obtain pre where pre: "?S = pre @ x # rest" using inv by (auto simp: I_def)
    have xS: "x \<in> set ?S" using pre by simp
    have xr: "x \<notin> set rest" using starts_distinct[OF assms(2), of b] pre by simp
    have Lc: "\<And>s. s \<in> set ?S \<Longrightarrow>
        L bc s = (if s \<in> set (x # rest) then L b s else merge_line (L b s))"
      using inv by (simp add: I_def st)
    have cc: "cc = (c \<or> (\<exists>s\<in>set ?S. L bc s \<noteq> L b s))" using inv by (simp add: I_def st)
    have v: "is_valid bc p = is_valid b p" for p
      using is_valid_same_dims[OF assms(1) wfc wc] .
    have ray: "\<forall>k. is_valid bc (shift x ?inv k) \<longleftrightarrow> k < ?n"
      using starts_ray[OF assms xS] v by simp
    have n: "0 < ?n" using starts_valid(2)[OF assms xS] .
    from walk_spec[OF wfc inv_nz ray n, of cc] obtain b2 c2 where r:
      "walk bc ?inv x (move_position x ?inv) cc = Some (Inr (b2, c2))" "wf b2"
      "width b2 = width bc" "line b2 x ?inv ?n = merge_line (line bc x ?inv ?n)"
      "\<forall>q. is_valid bc q \<and> (\<forall>k. q \<noteq> shift x ?inv k) \<longrightarrow> cell b2 q = cell bc q"
      "c2 = (cc \<or> line b2 x ?inv ?n \<noteq> line bc x ?inv ?n)"
      by blast
    have Lx: "L b2 x = merge_line (L b x)" using r(4) Lc[OF xS] by (simp add: L_def)
    have Lo: "L b2 s = L bc s" if "s \<in> set ?S" "s \<noteq> x" for s
      unfolding L_def
    proof (rule line_cong)
      fix k assume k: "k < ?n"
      have vk: "is_valid bc (shift s ?inv k)" using starts_ray[OF assms that(1)] k v by simp
      have "shift s ?inv k \<noteq> shift x ?inv k'" for k'
      proof
        assume e: "shift s ?inv k = shift x ?inv k'"
        then have "k' < ?n" using ray vk by metis
        from starts_disjoint[OF assms that(1) xS e k this] that(2) show False by simp
      qed
      then show "cell b2 (shift s ?inv k) = cell bc (shift s ?inv k)"
        using r(5)[rule_format, of "shift s ?inv k"] vk by blast
    qed
    have A: "\<forall>s\<in>set ?S. L b2 s = (if s \<in> set rest then L b s else merge_line (L b s))"
    proof
      fix s assume s: "s \<in> set ?S"
      show "L b2 s = (if s \<in> set rest then L b s else merge_line (L b s))"
      proof (cases "s = x")
        case True
        then show ?thesis using Lx xr by simp
      next
        case False
        then show ?thesis using Lo[OF s False] Lc[OF s] by simp
      qed
    qed
    have B: "c2 = (c \<or> (\<exists>s\<in>set ?S. L b2 s \<noteq> L b s))"
    proof -
      have bx: "L bc x = L b x" using Lc[OF xS] by simp
      have "(\<exists>s\<in>set ?S. L b2 s \<noteq> L b s) \<longleftrightarrow> (\<exists>s\<in>set ?S. L bc s \<noteq> L b s) \<or> L b2 x \<noteq> L bc x"
      proof
        assume "\<exists>s\<in>set ?S. L b2 s \<noteq> L b s"
        then obtain s where s: "s \<in> set ?S" "L b2 s \<noteq> L b s" by blast
        show "(\<exists>s\<in>set ?S. L bc s \<noteq> L b s) \<or> L b2 x \<noteq> L bc x"
        proof (cases "s = x")
          case True
          then show ?thesis using s(2) bx by simp
        next
          case False
          then show ?thesis using Lo[OF s(1) False] s by auto
        qed
      next
        assume "(\<exists>s\<in>set ?S. L bc s \<noteq> L b s) \<or> L b2 x \<noteq> L bc x"
        then show "\<exists>s\<in>set ?S. L b2 s \<noteq> L b s"
        proof
          assume "\<exists>s\<in>set ?S. L bc s \<noteq> L b s"
          then obtain s where s: "s \<in> set ?S" "L bc s \<noteq> L b s" by blast
          then have "s \<noteq> x" using bx by auto
          then have "L b2 s \<noteq> L b s" using Lo[OF s(1)] s(2) by simp
          then show ?thesis using s(1) by blast
        next
          assume "L b2 x \<noteq> L bc x"
          then show ?thesis using bx xS by auto
        qed
      qed
      then show ?thesis using r(6) cc by (auto simp: L_def)
    qed
    have "I rest (b2, c2)"
      unfolding I_def using r(2,3) wc pre A B by auto
    then show "\<exists>s'. walk (fst st) ?inv x (move_position x ?inv) (snd st) = Some (Inr s')
                    \<and> I rest s'"
      using r(1) by (simp add: st)
  qed
  then obtain st where st: "merge_pass b d c = Some (Inr st)" "I [] st"
    by (auto simp: merge_pass_def opposite_def Let_def)
  obtain b' c' where bc: "st = (b', c')" by (cases st)
  show ?thesis using st by (auto simp: bc I_def L_def)
qed

lemma lines_eq_board_eq:
  assumes "wf b" "wf b'" "width b' = width b" "unit_dir d"
  shows "(\<forall>s\<in>set (find_starts b d).
            line b' s (opposite d) (nat (width b)) = line b s (opposite d) (nat (width b)))
         \<longleftrightarrow> b' = b"
proof
  assume a: "\<forall>s\<in>set (find_starts b d).
            line b' s (opposite d) (nat (width b)) = line b s (opposite d) (nat (width b))"
  show "b' = b"
  proof (rule board_eqI[OF assms(2,1,3)])
    fix p assume "is_valid b' p"
    then have "is_valid b p" using is_valid_same_dims[OF assms(1,2,3)] by simp
    from starts_cover[OF assms(1,4) this] obtain s k where s:
      "s \<in> set (find_starts b d)" "k < nat (width b)" "p = shift s (opposite d) k" by blast
    have "line b' s (opposite d) (nat (width b)) ! k = line b s (opposite d) (nat (width b)) ! k"
      using a s(1) by simp
    then show "cell b' p = cell b p" using s(2,3) by (simp add: line_def)
  qed
next
  assume "b' = b"
  then show "\<forall>s\<in>set (find_starts b d).
            line b' s (opposite d) (nat (width b)) = line b s (opposite d) (nat (width b))"
    by simp
qed

lemma merge_pass_lines:
  assumes "wf b" "unit_dir d"
  shows "\<exists>b' c'. merge_pass b d c = Some (Inr (b', c')) \<and> wf b' \<and> width b' = width b
           \<and> (\<forall>s\<in>set (find_starts b d).
                 line b' s (opposite d) (nat (width b))
                 = merge_line (line b s (opposite d) (nat (width b))))
           \<and> c' = (c \<or> b' \<noteq> b)"
proof -
  from merge_pass_spec[OF assms, of c] obtain b' c' where r:
    "merge_pass b d c = Some (Inr (b', c'))" "wf b'" "width b' = width b"
    "\<forall>s\<in>set (find_starts b d).
        line b' s (opposite d) (nat (width b)) = merge_line (line b s (opposite d) (nat (width b)))"
    "c' = (c \<or> (\<exists>s\<in>set (find_starts b d).
        line b' s (opposite d) (nat (width b)) \<noteq> line b s (opposite d) (nat (width b))))"
    by blast
  have "c' = (c \<or> b' \<noteq> b)"
    using r(5) lines_eq_board_eq[OF assms(1) r(2,3) assms(2)] by blast
  then show ?thesis using r(1-4) by blast
qed


section \<open>Boards that are not square\<close>

lemma shaped_Board_init: "shaped (Board_init w h)"
  by (simp add: shaped_def Board_init_def list_all_length)

lemma py_index_err: "py_index xs i = Inl e \<Longrightarrow> e = IndexError"
  by (auto simp: py_index_def Let_def split: if_splits)

lemma py_index_bound: "py_index xs i = Inr j \<Longrightarrow> j < length xs"
  by (auto simp: py_index_def Let_def split: if_splits)

lemma get_err: "get b p = Inl e \<Longrightarrow> e = IndexError"
  by (auto simp: get_def split: sum.splits dest: py_index_err)

lemma set_tile_err: "set_tile b p t = Inl e \<Longrightarrow> e = IndexError"
  by (auto simp: set_tile_def split: sum.splits dest: py_index_err)

lemma set_tile_shaped:
  assumes "shaped b" "set_tile b p t = Inr b'"
  shows "shaped b' \<and> width b' = width b \<and> height b' = height b"
proof -
  from assms(2) obtain i j where ij: "py_index (board b) (fst p) = Inr i"
    "py_index (board b ! i) (snd p) = Inr j"
    "b' = b\<lparr>board := (board b)[i := (board b ! i)[j := t]]\<rparr>"
    by (auto simp: set_tile_def split: sum.splits)
  have a: "list_all (\<lambda>row. length row = nat (width b)) (board b)"
    using assms(1) by (simp add: shaped_def)
  have "list_all (\<lambda>row. length row = nat (width b)) ((board b)[i := (board b ! i)[j := t]])"
  proof (rule list_all_update[OF a])
    assume "i < length (board b)"
    then show "length ((board b ! i)[j := t]) = nat (width b)"
      using a by (simp add: list_all_length)
  qed
  then show ?thesis using assms(1) ij(3) by (simp add: shaped_def)
qed

lemma get_bad:
  assumes "shaped b" "0 \<le> x" "0 \<le> y" "height b \<le> x \<or> width b \<le> y"
  shows "get b (x, y) = Inl IndexError"
proof (cases "height b \<le> x")
  case True
  then have "py_index (board b) x = Inl IndexError"
    using assms(1,2) by (simp add: py_index_def shaped_def)
  then show ?thesis by (simp add: get_def)
next
  case False
  then have x: "x < height b" and y: "width b \<le> y" using assms(4) by auto
  have "py_index (board b) x = Inr (nat x)"
    using assms(1,2) x by (simp add: py_index_def shaped_def)
  moreover have "length (board b ! nat x) = nat (width b)"
    using assms(1,2) x by (simp add: shaped_row)
  then have "py_index (board b ! nat x) y = Inl IndexError"
    using assms(3) y by (simp add: py_index_def)
  ultimately show ?thesis by (simp add: get_def)
qed

lemma set_tile_bad:
  assumes "shaped b" "0 \<le> x" "0 \<le> y" "height b \<le> x \<or> width b \<le> y"
  shows "set_tile b (x, y) t = Inl IndexError"
proof (cases "height b \<le> x")
  case True
  then have "py_index (board b) x = Inl IndexError"
    using assms(1,2) by (simp add: py_index_def shaped_def)
  then show ?thesis by (simp add: set_tile_def)
next
  case False
  then have x: "x < height b" and y: "width b \<le> y" using assms(4) by auto
  have "py_index (board b) x = Inr (nat x)"
    using assms(1,2) x by (simp add: py_index_def shaped_def)
  moreover have "length (board b ! nat x) = nat (width b)"
    using assms(1,2) x by (simp add: shaped_row)
  then have "py_index (board b ! nat x) y = Inl IndexError"
    using assms(3) y by (simp add: py_index_def)
  ultimately show ?thesis by (simp add: set_tile_def)
qed

lemma bad_position:
  assumes "0 < width b" "0 < height b" "width b \<noteq> height b"
  shows "\<exists>x y. is_valid b (x, y) \<and> (height b \<le> x \<or> width b \<le> y)"
proof (cases "height b < width b")
  case True
  then show ?thesis using assms by (intro exI[of _ "height b"] exI[of _ 0]) (simp add: is_valid_def)
next
  case False
  then show ?thesis using assms by (intro exI[of _ 0] exI[of _ "width b"]) (simp add: is_valid_def)
qed

lemma for_each_ok_or_raises:
  assumes "P s"
    and "\<And>x s. x \<in> set xs \<Longrightarrow> P s \<Longrightarrow>
           body x s = Some (Inl e) \<or> (\<exists>s'. body x s = Some (Inr s') \<and> P s')"
  shows "for_each xs body s = Some (Inl e) \<or> (\<exists>s'. for_each xs body s = Some (Inr s') \<and> P s')"
  using assms
proof (induction xs arbitrary: s)
  case Nil
  then show ?case by simp
next
  case (Cons x xs)
  from Cons.prems(2)[of x s] Cons.prems(1)
  consider "body x s = Some (Inl e)" | s1 where "body x s = Some (Inr s1)" "P s1" by auto
  then show ?case
  proof cases
    case 1
    then show ?thesis by simp
  next
    case 2
    from Cons.IH[OF 2(2)] Cons.prems(2) show ?thesis using 2(1) by simp
  qed
qed

lemma for_each_raises:
  assumes "P s"
    and "\<And>x s. x \<in> set xs \<Longrightarrow> P s \<Longrightarrow>
           body x s = Some (Inl e) \<or> (\<exists>s'. body x s = Some (Inr s') \<and> P s')"
    and "\<exists>x\<in>set xs. \<forall>s. P s \<longrightarrow> body x s = Some (Inl e)"
  shows "for_each xs body s = Some (Inl e)"
  using assms
proof (induction xs arbitrary: s)
  case Nil
  then show ?case by simp
next
  case (Cons x xs)
  from Cons.prems(2)[of x s] Cons.prems(1)
  consider "body x s = Some (Inl e)" | s1 where "body x s = Some (Inr s1)" "P s1" by auto
  then show ?case
  proof cases
    case 1
    then show ?thesis by simp
  next
    case 2
    have "\<exists>y\<in>set xs. \<forall>s. P s \<longrightarrow> body y s = Some (Inl e)"
      using Cons.prems(1,3) 2 by auto
    from Cons.IH[OF 2(2) _ this] Cons.prems(2) show ?thesis using 2(1) by simp
  qed
qed

lemma slide_shaped:
  assumes "shaped b" "is_valid b p" "\<not> is_valid b (shift p d n)"
  shows "slide b d p (move_position p d) c = Some (Inl IndexError)
       \<or> (\<exists>b' c'. slide b d p (move_position p d) c = Some (Inr (b', c'))
             \<and> shaped b' \<and> width b' = width b \<and> height b' = height b)"
  using assms
proof (induction n arbitrary: b p c)
  case 0
  then show ?case by simp
next
  case (Suc n)
  let ?q = "move_position p d"
  show ?case
  proof (cases "is_valid b ?q")
    case False
    then have "slide b d p ?q c = Some (Inr (b, c))" by (subst slide.simps) simp
    then show ?thesis using Suc.prems(1) by simp
  next
    case True
    note qv = True
    show ?thesis
    proof (cases "get b ?q")
      case (Inl e)
      then have "slide b d p ?q c = Some (Inl IndexError)"
        using qv get_err[OF Inl] by (subst slide.simps) simp
      then show ?thesis by simp
    next
      case (Inr t)
      show ?thesis
      proof (cases t)
        case (Some a)
        then have "slide b d p ?q c = Some (Inr (b, c))"
          using qv Inr by (subst slide.simps) simp
        then show ?thesis using Suc.prems(1) by simp
      next
        case None
        show ?thesis
        proof (cases "get b p")
          case (Inl e)
          then have "slide b d p ?q c = Some (Inl IndexError)"
            using qv Inr None get_err[OF Inl] by (subst slide.simps) simp
          then show ?thesis by simp
        next
          case tile: (Inr tile)
          show ?thesis
          proof (cases "set_tile b ?q tile")
            case (Inl e)
            then have "slide b d p ?q c = Some (Inl IndexError)"
              using qv Inr None tile set_tile_err[OF Inl] by (subst slide.simps) simp
            then show ?thesis by simp
          next
            case b1: (Inr b1)
            have s1: "shaped b1 \<and> width b1 = width b \<and> height b1 = height b"
              using set_tile_shaped[OF Suc.prems(1) b1] .
            show ?thesis
            proof (cases "set_tile b1 p None")
              case (Inl e)
              then have "slide b d p ?q c = Some (Inl IndexError)"
                using qv Inr None tile b1 set_tile_err[OF Inl] by (subst slide.simps) simp
              then show ?thesis by simp
            next
              case b2: (Inr b2)
              have s2: "shaped b2 \<and> width b2 = width b \<and> height b2 = height b"
                using set_tile_shaped[OF _ b2] s1 by simp
              have step: "slide b d p ?q c = slide b2 d ?q (move_position ?q d) True"
                using qv Inr None tile b1 b2 by (subst slide.simps) simp
              have v2: "is_valid b2 ?q" using qv s2 by (simp add: is_valid_def)
              have nv: "\<not> is_valid b2 (shift ?q d n)"
                using Suc.prems(3) s2 by (simp add: is_valid_def shift_Suc)
              from Suc.IH[OF _ v2 nv, of True] s2 show ?thesis using step by auto
            qed
          qed
        qed
      qed
    qed
  qed
qed

lemma compact_cell_shaped:
  assumes "shaped (fst s)" "is_valid (fst s) (x, y)" "d \<noteq> (0, 0)"
  shows "compact_cell d x y s = Some (Inl IndexError)
       \<or> (\<exists>s'. compact_cell d x y s = Some (Inr s')
             \<and> shaped (fst s') \<and> width (fst s') = width (fst s) \<and> height (fst s') = height (fst s))"
proof (cases "get (fst s) (x, y)")
  case (Inl e)
  then show ?thesis using get_err[OF Inl] by (simp add: compact_cell_def)
next
  case (Inr t)
  show ?thesis
  proof (cases t)
    case None
    then show ?thesis using Inr assms(1) by (simp add: compact_cell_def)
  next
    case (Some a)
    then have "compact_cell d x y s = slide (fst s) d (x, y) (move_position (x, y) d) (snd s)"
      using Inr by (simp add: compact_cell_def)
    then show ?thesis
      using slide_shaped[OF assms(1,2) shift_leaves[OF assms(2,3)], of "snd s"] by auto
  qed
qed

lemma compact_not_square:
  assumes "shaped b" "0 < width b" "0 < height b" "width b \<noteq> height b" "d \<noteq> (0, 0)"
  shows "compact b d = Some (Inl IndexError)"
proof -
  define P where "P s \<longleftrightarrow> shaped (fst s) \<and> width (fst s) = width b \<and> height (fst s) = height b"
    for s :: "Board \<times> bool"
  from bad_position[OF assms(2,3,4)] obtain x0 y0 where bad:
    "is_valid b (x0, y0)" "height b \<le> x0 \<or> width b \<le> y0" by blast
  have cell_ok: "compact_cell d x y s = Some (Inl IndexError)
       \<or> (\<exists>s'. compact_cell d x y s = Some (Inr s') \<and> P s')"
    if "x \<in> set (range_py (width b))" "y \<in> set (range_py (height b))" "P s" for x y s
  proof -
    have "is_valid (fst s) (x, y)" using that by (simp add: P_def set_range_py is_valid_def)
    from compact_cell_shaped[OF _ this assms(5)] that(3) show ?thesis by (auto simp: P_def)
  qed
  have cell_bad: "compact_cell d x0 y0 s = Some (Inl IndexError)" if "P s" for s
  proof -
    have "get (fst s) (x0, y0) = Inl IndexError"
      using that bad by (intro get_bad) (auto simp: P_def is_valid_def)
    then show ?thesis by (simp add: compact_cell_def)
  qed
  have x0: "x0 \<in> set (range_py (width b))" and y0: "y0 \<in> set (range_py (height b))"
    using bad(1) by (simp_all add: set_range_py is_valid_def)
  have inner_ok: "for_each (range_py (height b)) (compact_cell d x) s = Some (Inl IndexError)
       \<or> (\<exists>s'. for_each (range_py (height b)) (compact_cell d x) s = Some (Inr s') \<and> P s')"
    if "x \<in> set (range_py (width b))" "P s" for x s
    using that(2) cell_ok[OF that(1)] by (rule for_each_ok_or_raises)
  have inner_bad: "for_each (range_py (height b)) (compact_cell d x0) s = Some (Inl IndexError)"
    if "P s" for s
    using that cell_ok[OF x0]
  proof (rule for_each_raises)
    show "\<exists>y\<in>set (range_py (height b)). \<forall>s. P s \<longrightarrow> compact_cell d x0 y s = Some (Inl IndexError)"
      using y0 cell_bad by blast
  qed
  let ?pass = "\<lambda>i::int. for_each (range_py (width b))
      (\<lambda>x. for_each (range_py (height b)) (compact_cell d x))"
  have pass_bad: "?pass 0 s = Some (Inl IndexError)" if "P s" for s
    using that
  proof (rule for_each_raises)
    show "\<exists>x\<in>set (range_py (width b)). \<forall>s. P s \<longrightarrow>
        for_each (range_py (height b)) (compact_cell d x) s = Some (Inl IndexError)"
      using x0 inner_bad by blast
  qed (rule inner_ok)
  have P0: "P (b, False)" using assms(1) by (simp add: P_def)
  have "0 \<in> set (range_py (max (width b) (height b)))"
    using assms(2) by (simp add: set_range_py)
  then obtain rest where "range_py (max (width b) (height b)) = 0 # rest"
    by (cases "range_py (max (width b) (height b))") (auto simp: range_py_def upt_conv_Cons map_eq_Cons_conv)
  then show ?thesis using pass_bad[OF P0] by (simp add: compact_def)
qed

lemma spawn_options_not_square:
  assumes "shaped b" "0 < width b" "0 < height b" "width b \<noteq> height b"
  shows "spawn_options b = Some (Inl IndexError)"
proof -
  from bad_position[OF assms(2,3,4)] obtain x0 y0 where bad:
    "is_valid b (x0, y0)" "height b \<le> x0 \<or> width b \<le> y0" by blast
  have x0: "x0 \<in> set (range_py (width b))" and y0: "y0 \<in> set (range_py (height b))"
    using bad(1) by (simp_all add: set_range_py is_valid_def)
  let ?body = "\<lambda>x y (options :: pos list). case get b (x, y) of
               Inl e \<Rightarrow> Some (Inl e)
             | Inr None \<Rightarrow> Some (Inr (options @ [(x, y)]))
             | Inr (Some t) \<Rightarrow> Some (Inr options)"
  define P where "P s \<longleftrightarrow> True" for s :: "pos list"
  have body_ok: "?body x y s = Some (Inl IndexError) \<or> (\<exists>s'. ?body x y s = Some (Inr s') \<and> P s')"
    for x y s
    by (auto simp: P_def split: sum.splits option.splits dest: get_err)
  have body_bad: "?body x0 y0 s = Some (Inl IndexError)" for s
    using get_bad[OF assms(1) _ _ bad(2)] bad(1) by (simp add: is_valid_def)
  have inner_ok: "for_each (range_py (height b)) (?body x) s = Some (Inl IndexError)
      \<or> (\<exists>s'. for_each (range_py (height b)) (?body x) s = Some (Inr s') \<and> P s')" for x s
    by (rule for_each_ok_or_raises[where P = P]) (simp add: P_def, rule body_ok)
  have inner_bad: "for_each (range_py (height b)) (?body x0) s = Some (Inl IndexError)" for s
  proof (rule for_each_raises[where P = P])
    show "P s" by (simp add: P_def)
    show "\<exists>y\<in>set (range_py (height b)). \<forall>s. P s \<longrightarrow> ?body x0 y s = Some (Inl IndexError)"
      using y0 body_bad by blast
  qed (rule body_ok)
  have "for_each (range_py (width b)) (\<lambda>x. for_each (range_py (height b)) (?body x)) []
        = Some (Inl IndexError)"
  proof (rule for_each_raises[where P = P])
    show "P []" by (simp add: P_def)
    show "\<exists>x\<in>set (range_py (width b)). \<forall>s. P s \<longrightarrow>
        for_each (range_py (height b)) (?body x) s = Some (Inl IndexError)"
      using x0 inner_bad by blast
  qed (rule inner_ok)
  then show ?thesis by (simp add: spawn_options_def)
qed

lemma spawn_not_square:
  assumes "shaped b" "0 < width b" "0 < height b" "width b \<noteq> height b"
  shows "spawn b rnd = Some (Inl IndexError)"
  by (simp add: spawn_def spawn_options_not_square[OF assms] bind_res_def)

lemma move_not_square:
  assumes "shaped b" "0 < width b" "0 < height b" "width b \<noteq> height b" "d \<noteq> (0, 0)"
  shows "move b d rnd = Some (Inl IndexError)"
  by (simp add: move_def compact_not_square[OF assms] bind_res_def)

section \<open>Spawning and the steps of a move on square boards\<close>

lemma spawn_inner:
  assumes "wf b" "\<forall>y\<in>set ys. is_valid b (x, y)"
  shows "for_each ys (\<lambda>y options. case get b (x, y) of
               Inl e \<Rightarrow> Some (Inl e)
             | Inr None \<Rightarrow> Some (Inr (options @ [(x, y)]))
             | Inr (Some t) \<Rightarrow> Some (Inr options)) acc
         = Some (Inr (acc @ filter (\<lambda>p. cell b p = None) (map (Pair x) ys)))"
  using assms(2)
proof (induction ys arbitrary: acc)
  case Nil
  then show ?case by simp
next
  case (Cons y ys)
  then show ?case using get_valid[OF assms(1), of "(x, y)"]
    by (cases "cell b (x, y)") simp_all
qed

lemma spawn_outer:
  assumes "wf b" "\<forall>x\<in>set xs. \<forall>y\<in>set ys. is_valid b (x, y)"
  shows "for_each xs (\<lambda>x. for_each ys (\<lambda>y options. case get b (x, y) of
               Inl e \<Rightarrow> Some (Inl e)
             | Inr None \<Rightarrow> Some (Inr (options @ [(x, y)]))
             | Inr (Some t) \<Rightarrow> Some (Inr options))) acc
         = Some (Inr (acc @ filter (\<lambda>p. cell b p = None) (List.product xs ys)))"
  using assms(2)
proof (induction xs arbitrary: acc)
  case Nil
  then show ?case by simp
next
  case (Cons x xs)
  have "\<forall>y\<in>set ys. is_valid b (x, y)" using Cons.prems by simp
  from spawn_inner[OF assms(1) this] Cons show ?case by simp
qed

lemma spawn_options_wf:
  assumes "wf b"
  shows "spawn_options b = Some (Inr (filter (\<lambda>p. cell b p = None) (positions b)))"
  unfolding spawn_options_def positions_def
  using spawn_outer[OF assms, of "range_py (width b)" "range_py (height b)" "[]"]
  by (simp add: set_range_py is_valid_def)

lemma upd_upd: "upd (upd b p t) p t' = upd b p t'"
  by (cases "nat (fst p) < length (board b)") (simp_all add: upd_def list_update_beyond)

lemma spawn_wf:
  assumes "wf b"
  shows "spawn b rnd = Some (Inr
           (if free_cells b = [] then (b, Some False)
            else (upd b (free_cells b ! (fst rnd mod length (free_cells b)))
                    (Some (Tile (if snd rnd then 4 else 2))), None)))"
proof (cases "free_cells b = []")
  case True
  then show ?thesis
    by (simp add: spawn_def spawn_options_wf[OF assms] bind_res_def free_cells_def)
next
  case False
  let ?p = "free_cells b ! (fst rnd mod length (free_cells b))"
  have "?p \<in> set (free_cells b)" using False by simp
  then have v: "is_valid b ?p" by (simp add: free_cells_def set_positions)
  have s1: "set_tile b ?p (Some Tile_default) = Inr (upd b ?p (Some Tile_default))"
    using set_tile_valid[OF assms v] .
  have s2: "set_tile (upd b ?p (Some Tile_default)) ?p (Some (Tile 4)) = Inr (upd b ?p (Some (Tile 4)))"
  proof -
    have "wf (upd b ?p (Some Tile_default))" using assms by (rule wf_upd)
    from set_tile_valid[OF this, of ?p "Some (Tile 4)"] v show ?thesis by (simp add: upd_upd)
  qed
  show ?thesis using False s1 s2
    by (simp add: spawn_def spawn_options_wf[OF assms] bind_res_def free_cells_def[symmetric]
        lift_def Let_def Tile_default_def)
qed

lemma move_via_steps:
  "move b d rnd =
     bind_res (move_steps b d) (\<lambda>(b3, changed).
       if changed then bind_res (spawn b3 rnd) (\<lambda>(b4, r). Some (Inr b4)) else Some (Inr b3))"
  by (simp add: move_def move_steps_def bind_res_def split: option.splits sum.splits prod.splits)

lemma move_steps_wf:
  assumes "wf b" "unit_dir d"
  shows "\<exists>b1 c1 b2 c2 b3 c3.
           compact b d = Some (Inr (b1, c1)) \<and> wf b1 \<and> width b1 = width b
         \<and> merge_pass b1 d c1 = Some (Inr (b2, c2)) \<and> wf b2 \<and> width b2 = width b
         \<and> compact b2 d = Some (Inr (b3, c3)) \<and> wf b3 \<and> width b3 = width b
         \<and> move_steps b d = Some (Inr (b3, c3 \<or> c2))"
proof -
  have nz: "d \<noteq> (0, 0)" using assms(2) by (rule unit_dir_nonzero)
  from compact_total[OF assms(1) nz] obtain b1 c1 where
    1: "compact b d = Some (Inr (b1, c1))" "wf b1" "width b1 = width b" by blast
  from merge_pass_lines[OF 1(2) assms(2), of c1] obtain b2 c2 where
    2: "merge_pass b1 d c1 = Some (Inr (b2, c2))" "wf b2" "width b2 = width b1" by blast
  from compact_total[OF 2(2) nz] obtain b3 c3 where
    3: "compact b2 d = Some (Inr (b3, c3))" "wf b3" "width b3 = width b2" by blast
  have "move_steps b d = Some (Inr (b3, c3 \<or> c2))"
    by (simp add: move_steps_def bind_res_def 1(1) 2(1) 3(1))
  then show ?thesis using 1 2 3 by auto
qed

lemma move_total:
  assumes "wf b" "unit_dir d"
  shows "\<exists>b'. move b d rnd = Some (Inr b') \<and> wf b' \<and> width b' = width b"
proof -
  from move_steps_wf[OF assms] obtain b3 c where
    s: "move_steps b d = Some (Inr (b3, c))" "wf b3" "width b3 = width b" by blast
  show ?thesis
  proof (cases c)
    case False
    then show ?thesis using s by (simp add: move_via_steps bind_res_def)
  next
    case True
    then show ?thesis using s spawn_wf[OF s(2), of rnd]
      by (simp add: move_via_steps bind_res_def wf_upd)
  qed
qed

section \<open>Boards with nothing to move: degenerate and settled boards\<close>

lemma for_each_skip:
  "(\<And>x s. x \<in> set xs \<Longrightarrow> body x s = Some (Inr s)) \<Longrightarrow> for_each xs body s = Some (Inr s)"
  by (induction xs) simp_all

lemma compact_degenerate:
  assumes "width b \<le> 0 \<or> height b \<le> 0"
  shows "compact b d = Some (Inr (b, False))"
proof -
  have inner: "for_each (range_py (width b))
      (\<lambda>x. for_each (range_py (height b)) (compact_cell d x)) s = Some (Inr s)" for s
  proof (cases "width b \<le> 0")
    case True
    then show ?thesis by (simp add: range_py_def)
  next
    case False
    then have "range_py (height b) = []" using assms by (simp add: range_py_def)
    then show ?thesis by (simp add: for_each_skip)
  qed
  show ?thesis unfolding compact_def by (rule for_each_skip) (rule inner)
qed

lemma merge_pass_degenerate:
  assumes "width b \<le> 0 \<or> height b \<le> 0"
  shows "merge_pass b d c = Some (Inr (b, c))"
proof -
  have nv: "\<not> is_valid b p" for p using assms by (auto simp: is_valid_def)
  have "\<exists>s'. for_each (find_starts b d)
      (\<lambda>start s. walk (fst s) (- fst d, - snd d) start
                   (move_position start (- fst d, - snd d)) (snd s)) (b, c) = Some (Inr s')
      \<and> s' = (b, c)"
  proof (rule for_each_inv[where P = "\<lambda>s. s = (b, c)"])
    fix x and s :: "Board \<times> bool"
    assume "s = (b, c)"
    then show "\<exists>s'. walk (fst s) (- fst d, - snd d) x
        (move_position x (- fst d, - snd d)) (snd s) = Some (Inr s') \<and> s' = (b, c)"
      by (subst walk.simps) (simp add: nv)
  qed simp
  then show ?thesis by (simp add: merge_pass_def Let_def)
qed

lemma move_steps_degenerate:
  assumes "width b \<le> 0 \<or> height b \<le> 0"
  shows "move_steps b d = Some (Inr (b, False))"
  by (simp add: move_steps_def bind_res_def compact_degenerate[OF assms]
      merge_pass_degenerate[OF assms])

lemma move_degenerate:
  assumes "width b \<le> 0 \<or> height b \<le> 0"
  shows "move b d rnd = Some (Inr b)"
  by (simp add: move_via_steps move_steps_degenerate[OF assms] bind_res_def)

lemma move_steps_not_square:
  assumes "shaped b" "0 < width b" "0 < height b" "width b \<noteq> height b" "d \<noteq> (0, 0)"
  shows "move_steps b d = Some (Inl IndexError)"
  by (simp add: move_steps_def compact_not_square[OF assms] bind_res_def)

lemma shaped_cases:
  assumes "shaped b"
  obtains (square) "wf b"
    | (raises) "0 < width b" "0 < height b" "width b \<noteq> height b"
    | (degenerate) "width b \<le> 0 \<or> height b \<le> 0"
  using assms
  by (cases "width b = height b"; cases "0 < width b"; cases "0 < height b") (auto simp: wf_def)






section \<open>Start cells of the merge pass\<close>




section \<open>Win detection\<close>

text \<open>C8, as stated: \<open>check_win\<close> would be true whenever some cell holds a value of at least
  2048. A board whose only tile is 4096 (two 2048 tiles merged after the player chose to
  continue) holds such a cell and \<open>check_win\<close> is false.\<close>

theorem check_win_4096:
  "\<not> check_win \<lparr>width = 1, height = 1, board = [[Some (Tile 4096)]]\<rparr>
   \<and> 2048 \<le> val (Tile 4096)"
  by code_simp

text \<open>C8, amended: \<open>check_win\<close> is true exactly when some cell holds a tile of value 2048.\<close>

theorem check_win_iff:
  "check_win b \<longleftrightarrow> (\<exists>row t. row \<in> set (board b) \<and> Some t \<in> set row \<and> val t = 2048)"
  unfolding check_win_def list_ex_iff
  by (auto split: option.splits)

lemma check_win_examples:
  "check_win \<lparr>width = 2, height = 2, board = [[None, None], [Some (Tile 2048), None]]\<rparr>"
  "\<not> check_win \<lparr>width = 2, height = 2, board = [[Some (Tile 1024), None], [Some (Tile 2), None]]\<rparr>"
  by code_simp+

section \<open>Game over\<close>

text \<open>C2: \<open>check_game_over\<close> should depend on the instance only. The 1 by 1 board holding one
  tile is full and has no neighbours, so the game is over on it, and the method says so when
  the module-level \<open>board\<close> is that same board; with the module-level \<open>board\<close> bound to an
  empty board the same call answers false, and with the name unbound it raises.\<close>

theorem check_game_over_reads_global:
  "check_game_over \<lparr>width = 1, height = 1, board = [[Some (Tile 2)]]\<rparr>
     (Some \<lparr>width = 1, height = 1, board = [[Some (Tile 2)]]\<rparr>) = Inr True
   \<and> check_game_over \<lparr>width = 1, height = 1, board = [[Some (Tile 2)]]\<rparr>
       (Some (Board_init 1 1)) = Inr False
   \<and> check_game_over \<lparr>width = 1, height = 1, board = [[Some (Tile 2)]]\<rparr> None = Inl NameError"
  by code_simp

section \<open>Spawn\<close>

text \<open>C4: \<open>spawn\<close> should return true on placement. On the empty 1 by 1 board it places a
  tile of value 2 and falls off the end of its body: the value returned is Python's \<open>None\<close>.\<close>

theorem spawn_returns_None:
  "spawn (Board_init 1 1) (0, False)
     = Some (Inr (\<lparr>width = 1, height = 1, board = [[Some (Tile 2)]]\<rparr>, None))"
  by code_simp

section \<open>Grid allocation and indexing\<close>

text \<open>C10, as stated: every board with \<open>width \<noteq> height\<close> would have a position accepted by
  \<open>_is_valid\<close> whose access raises \<open>IndexError\<close>. The board \<open>Board(0, 3)\<close> has
  \<open>width \<noteq> height\<close>, no position of it is valid, and \<open>spawn\<close> and \<open>move\<close> return without
  error.\<close>

theorem zero_width_board_in_bounds:
  "width (Board_init 0 3) \<noteq> height (Board_init 0 3)
   \<and> board (Board_init 0 3) = [[], [], []]
   \<and> (\<forall>p. \<not> is_valid (Board_init 0 3) p)
   \<and> spawn (Board_init 0 3) (0, False) = Some (Inr (Board_init 0 3, Some False))
   \<and> move (Board_init 0 3) (1, 0) (0, False) = Some (Inr (Board_init 0 3))"
proof -
  have "spawn (Board_init 0 3) (0, False) = Some (Inr (Board_init 0 3, Some False))"
    by code_simp
  moreover have "move (Board_init 0 3) (1, 0) (0, False) = Some (Inr (Board_init 0 3))"
    by code_simp
  moreover have "board (Board_init 0 3) = [[], [], []]"
    by (simp add: Board_init_def numeral_3_eq_3)
  ultimately show ?thesis by (simp add: is_valid_def Board_init_def)
qed

text \<open>C10, amended: \<open>__init__\<close> allocates \<open>height\<close> inner lists of \<open>width\<close> cells
  (\<open>shaped_Board_init\<close>), and \<open>_set\<close> keeps that shape (\<open>set_tile_shaped\<close>). On a board of that
  shape with positive width and height, each of the following holds exactly when the board is
  square: \<open>_get\<close> returns a value at every valid position; \<open>_set\<close> returns at every valid
  position; \<open>spawn\<close> returns; \<open>move\<close> in a unit direction returns. When the board is not
  square, some valid position makes both \<open>_get\<close> and \<open>_set\<close> raise \<open>IndexError\<close>, and
  \<open>spawn\<close> and \<open>move\<close> raise \<open>IndexError\<close>.\<close>

theorem in_bounds_iff_square:
  assumes "shaped b" "0 < width b" "0 < height b"
  shows "((\<forall>p. is_valid b p \<longrightarrow> (\<exists>v. get b p = Inr v)) \<longleftrightarrow> width b = height b)
       \<and> ((\<forall>p. is_valid b p \<longrightarrow> (\<exists>b'. set_tile b p t = Inr b')) \<longleftrightarrow> width b = height b)
       \<and> ((\<exists>r. spawn b rnd = Some (Inr r)) \<longleftrightarrow> width b = height b)
       \<and> (unit_dir d \<longrightarrow> ((\<exists>b'. move b d rnd = Some (Inr b')) \<longleftrightarrow> width b = height b))
       \<and> (width b \<noteq> height b \<longrightarrow>
            (\<exists>p. is_valid b p \<and> get b p = Inl IndexError \<and> set_tile b p t = Inl IndexError)
            \<and> spawn b rnd = Some (Inl IndexError)
            \<and> (unit_dir d \<longrightarrow> move b d rnd = Some (Inl IndexError)))"
proof (cases "width b = height b")
  case True
  then have wf: "wf b" using assms(1) by (simp add: wf_def)
  have "\<exists>r. spawn b rnd = Some (Inr r)" using spawn_wf[OF wf, of rnd] by simp
  moreover have "unit_dir d \<longrightarrow> (\<exists>b'. move b d rnd = Some (Inr b'))"
    using move_total[OF wf, of d rnd] by blast
  ultimately show ?thesis using True wf by (simp add: get_valid set_tile_valid)
next
  case False
  from bad_position[OF assms(2,3) False] obtain x y where bad:
    "is_valid b (x, y)" "height b \<le> x \<or> width b \<le> y" by blast
  have xy: "0 \<le> x" "0 \<le> y" using bad(1) by (simp_all add: is_valid_def)
  have g: "get b (x, y) = Inl IndexError" using get_bad[OF assms(1) xy bad(2)] .
  have s: "set_tile b (x, y) t = Inl IndexError" using set_tile_bad[OF assms(1) xy bad(2)] .
  have sp: "spawn b rnd = Some (Inl IndexError)" using spawn_not_square[OF assms False] .
  have mv: "unit_dir d \<longrightarrow> move b d rnd = Some (Inl IndexError)"
    using move_not_square[OF assms False] unit_dir_nonzero by blast
  have 1: "\<not> (\<forall>p. is_valid b p \<longrightarrow> (\<exists>v. get b p = Inr v))" using bad(1) g by force
  have 2: "\<not> (\<forall>p. is_valid b p \<longrightarrow> (\<exists>b'. set_tile b p t = Inr b'))" using bad(1) s by force
  have 3: "\<exists>p. is_valid b p \<and> get b p = Inl IndexError \<and> set_tile b p t = Inl IndexError"
    using bad(1) g s by blast
  show ?thesis using False 1 2 3 sp mv by simp
qed

theorem in_bounds_iff_square_witness:
  "shaped (Board_init 3 2) \<and> 0 < width (Board_init 3 2) \<and> 0 < height (Board_init 3 2)
   \<and> width (Board_init 3 2) \<noteq> height (Board_init 3 2)
   \<and> unit_dir (1, 0)
   \<and> (\<exists>p. is_valid (Board_init 3 2) p \<and> get (Board_init 3 2) p = Inl IndexError
          \<and> set_tile (Board_init 3 2) p None = Inl IndexError)
   \<and> spawn (Board_init 3 2) (0, False) = Some (Inl IndexError)
   \<and> move (Board_init 3 2) (1, 0) (0, False) = Some (Inl IndexError)"
proof -
  have s: "shaped (Board_init 3 2)" by (rule shaped_Board_init)
  have w: "0 < width (Board_init 3 2)" and h: "0 < height (Board_init 3 2)"
    by (simp_all add: Board_init_def)
  have ne: "width (Board_init 3 2) \<noteq> height (Board_init 3 2)" by (simp add: Board_init_def)
  have u: "unit_dir (1, 0)" by (simp add: unit_dir_def)
  from in_bounds_iff_square [OF s w h, of None "(0, False)" "(1, 0)"] s w h ne u
  show ?thesis by blast
qed

section \<open>Directions outside the four unit vectors\<close>

text \<open>C9, as stated: a move along the diagonal \<open>(1, 1)\<close> would be rejected or leave the grid
  unchanged. On a 2 by 2 board with one tile at \<open>(0, 0)\<close> the move is carried out: the tile
  slides to \<open>(1, 1)\<close> and a new tile is spawned.\<close>

theorem move_diagonal_changes_grid:
  "move \<lparr>width = 2, height = 2, board = [[Some (Tile 2), None], [None, None]]\<rparr> (1, 1) (0, False)
     = Some (Inr \<lparr>width = 2, height = 2, board = [[Some (Tile 2), None], [None, Some (Tile 2)]]\<rparr>)
   \<and> \<lparr>width = 2, height = 2, board = [[Some (Tile 2), None], [None, Some (Tile 2)]]\<rparr>
       \<noteq> \<lparr>width = 2, height = 2, board = [[Some (Tile 2), None], [None, None]]\<rparr>"
  by code_simp

section \<open>A move that changes nothing\<close>




end
